theory Spec2Isabelle
  imports Complex_Main "HOL-Library.Monad_Syntax"
begin

section \<open>JavaScript dates\<close>

text \<open>
  The store \<^verbatim>\<open>useDatePickerStore\<close> computes with JavaScript \<^verbatim>\<open>Date\<close> objects and the
  date-fns helpers \<^verbatim>\<open>addDays\<close>, \<^verbatim>\<open>addWeeks\<close>, \<^verbatim>\<open>addMonths\<close>, \<^verbatim>\<open>addYears\<close>,
  \<^verbatim>\<open>startOfWeek\<close>, \<^verbatim>\<open>isValid\<close> and \<^verbatim>\<open>isBefore\<close>. Both are library code. They are
  modelled here after ECMA-262 (section "Date Objects": \<open>Day\<close>, \<open>TimeWithinDay\<close>,
  \<open>DaysInYear\<close>, \<open>DayFromYear\<close>, \<open>YearFromTime\<close>, \<open>MonthFromTime\<close>, \<open>DateFromTime\<close>,
  \<open>WeekDay\<close>, \<open>MakeDay\<close>, \<open>MakeDate\<close>) and after the date-fns sources.

  A \<open>Date\<close> is its time value: the number of milliseconds since 1970-01-01T00:00:00Z.
  Three things are fixed by the model:
  \<^item> the local time zone is UTC, so local time has no offset and no daylight saving;
  \<^item> time values are unbounded integers (ECMA-262 stops at 8.64e15 ms either side of the
    epoch), and the \<^verbatim>\<open>Invalid Date\<close> (time value NaN) is not a value of the type, so
    \<open>isValid\<close> holds of every date of the model;
  \<^item> every \<^verbatim>\<open>number\<close> the store handles (interval, weekday, week ordinal) is an integer;
  \<^item> arrays are lists of any length (ECMA-262 stops at 4294967295 elements, where
    \<^verbatim>\<open>push\<close> throws), and memory is not bounded.
  So nothing throws in the model, and a loop that real code could leave only by running out
  of dates, of array indices or of memory does not return.
\<close>

type_synonym Date = int

definition msPerDay :: int where
  "msPerDay = 1000 * 3600 * 24"

definition Day :: "Date \<Rightarrow> int" where
  "Day t = t div msPerDay"

definition TimeWithinDay :: "Date \<Rightarrow> int" where
  "TimeWithinDay t = t mod msPerDay"

definition DaysInYear :: "int \<Rightarrow> int" where
  "DaysInYear y =
     (if y mod 4 \<noteq> 0 then 365
      else if y mod 100 \<noteq> 0 then 366
      else if y mod 400 \<noteq> 0 then 365
      else 366)"

definition DayFromYear :: "int \<Rightarrow> int" where
  "DayFromYear y =
     365 * (y - 1970) + (y - 1969) div 4 - (y - 1901) div 100 + (y - 1601) div 400"

text \<open>Each year is \<open>DaysInYear\<close> days long; the searches below terminate by this.\<close>

lemma div_step_gen:
  fixes a n :: int
  assumes "0 < n"
  shows "(a + 1) div n = a div n + (if (a + 1) mod n = 0 then 1 else 0)"
proof -
  define q r where "q = a div n" and "r = a mod n"
  have a: "a = n * q + r" and r: "0 \<le> r" "r < n"
    using assms by (simp_all add: q_def r_def)
  show ?thesis
  proof (cases "r + 1 = n")
    case True
    then have e: "a + 1 = n * (q + 1) + 0" using a by (simp add: algebra_simps)
    have "(a + 1) div n = q + 1" by (rule int_div_pos_eq[OF e]) (use assms in simp_all)
    moreover have "(a + 1) mod n = 0" by (rule int_mod_pos_eq[OF e]) (use assms in simp_all)
    ultimately show ?thesis by (simp add: q_def)
  next
    case False
    then have lt: "r + 1 < n" using r by simp
    have e: "a + 1 = n * q + (r + 1)" using a by simp
    have "(a + 1) div n = q" by (rule int_div_pos_eq[OF e]) (use r lt in simp_all)
    moreover have "(a + 1) mod n = r + 1" by (rule int_mod_pos_eq[OF e]) (use r lt in simp_all)
    ultimately show ?thesis using r by (simp add: q_def)
  qed
qed

lemma div4_step:
  "(y - 1968) div 4 = (y - 1969) div 4 + (if y mod 4 = 0 then 1 else 0)" for y :: int
proof -
  have "(y - 1968) mod 4 = y mod 4" by algebra
  then show ?thesis using div_step_gen[of 4 "y - 1969"] by simp
qed

lemma div100_step:
  "(y - 1900) div 100 = (y - 1901) div 100 + (if y mod 100 = 0 then 1 else 0)" for y :: int
proof -
  have "(y - 1900) mod 100 = y mod 100" by algebra
  then show ?thesis using div_step_gen[of 100 "y - 1901"] by simp
qed

lemma div400_step:
  "(y - 1600) div 400 = (y - 1601) div 400 + (if y mod 400 = 0 then 1 else 0)" for y :: int
proof -
  have "(y - 1600) mod 400 = y mod 400" by algebra
  then show ?thesis using div_step_gen[of 400 "y - 1601"] by simp
qed

lemma mod100_mod4: "y mod 100 = 0 \<Longrightarrow> y mod 4 = 0" for y :: int
  by fastforce

lemma mod400_mod100: "y mod 400 = 0 \<Longrightarrow> y mod 100 = 0" for y :: int
  by fastforce

lemma DayFromYear_step: "DayFromYear (y + 1) = DayFromYear y + DaysInYear y"
proof -
  have "DayFromYear (y + 1) =
      365 * (y - 1970) + 365 + (y - 1968) div 4 - (y - 1900) div 100 + (y - 1600) div 400"
    by (simp add: DayFromYear_def algebra_simps)
  then show ?thesis
    using mod100_mod4[of y] mod400_mod100[of y]
    by (auto simp: DayFromYear_def DaysInYear_def div4_step div100_step div400_step)
qed

lemma DaysInYear_pos: "365 \<le> DaysInYear y"
  by (simp add: DaysInYear_def)

text \<open>
  ECMA-262 defines \<open>YearFromTime(t)\<close> as the largest year \<open>y\<close> with
  \<open>DayFromYear(y) \<le> Day(t)\<close>. The model finds it by a search from the estimate
  \<open>1970 + d div 365\<close>, upwards or downwards; \<open>YearFromDay_spec\<close> and
  \<open>YearFromDay_unique\<close> below show that the search returns exactly that year.
\<close>

function yearUp :: "int \<Rightarrow> int \<Rightarrow> int" where
  "yearUp y d = (if DayFromYear (y + 1) \<le> d then yearUp (y + 1) d else y)"
  by pat_completeness auto
termination
proof (relation "measure (\<lambda>(y, d). nat (d - DayFromYear y))")
  show "wf (measure (\<lambda>(y, d). nat (d - DayFromYear y)))" by simp
next
  fix y d :: int
  assume "DayFromYear (y + 1) \<le> d"
  then show "((y + 1, d), (y, d)) \<in> measure (\<lambda>(y, d). nat (d - DayFromYear y))"
    using DaysInYear_pos[of y] by (simp add: DayFromYear_step)
qed

function yearDown :: "int \<Rightarrow> int \<Rightarrow> int" where
  "yearDown y d = (if d < DayFromYear y then yearDown (y - 1) d else y)"
  by pat_completeness auto
termination
proof (relation "measure (\<lambda>(y, d). nat (DayFromYear y - d))")
  show "wf (measure (\<lambda>(y, d). nat (DayFromYear y - d)))" by simp
next
  fix y d :: int
  assume "d < DayFromYear y"
  then show "((y - 1, d), (y, d)) \<in> measure (\<lambda>(y, d). nat (DayFromYear y - d))"
    using DaysInYear_pos[of "y - 1"] DayFromYear_step[of "y - 1"] by simp
qed

declare yearUp.simps [simp del] yearDown.simps [simp del]

definition YearFromDay :: "int \<Rightarrow> int" where
  "YearFromDay d =
     (let y0 = 1970 + d div 365
      in if DayFromYear y0 \<le> d then yearUp y0 d else yearDown (y0 - 1) d)"

definition InLeapYear :: "int \<Rightarrow> int" where
  "InLeapYear y = (if DaysInYear y = 366 then 1 else 0)"

text \<open>
  \<open>MonthStart m l\<close> is the day within the year on which month \<open>m\<close> (0 = January) starts,
  \<open>l\<close> being 1 in a leap year; \<open>MonthOfYearDay\<close> is the table of \<open>MonthFromTime\<close>.
\<close>

definition MonthStart :: "int \<Rightarrow> int \<Rightarrow> int" where
  "MonthStart m l =
     (if m = 0 then 0 else if m = 1 then 31 else if m = 2 then 59 + l
      else if m = 3 then 90 + l else if m = 4 then 120 + l else if m = 5 then 151 + l
      else if m = 6 then 181 + l else if m = 7 then 212 + l else if m = 8 then 243 + l
      else if m = 9 then 273 + l else if m = 10 then 304 + l else if m = 11 then 334 + l
      else 365 + l)"

definition MonthOfYearDay :: "int \<Rightarrow> int \<Rightarrow> int" where
  "MonthOfYearDay w l =
     (if w < 31 then 0 else if w < 59 + l then 1 else if w < 90 + l then 2
      else if w < 120 + l then 3 else if w < 151 + l then 4 else if w < 181 + l then 5
      else if w < 212 + l then 6 else if w < 243 + l then 7 else if w < 273 + l then 8
      else if w < 304 + l then 9 else if w < 334 + l then 10 else 11)"

definition MonthFromDay :: "int \<Rightarrow> int" where
  "MonthFromDay d =
     (let y = YearFromDay d in MonthOfYearDay (d - DayFromYear y) (InLeapYear y))"

definition DateFromDay :: "int \<Rightarrow> int" where
  "DateFromDay d =
     (let y = YearFromDay d
      in d - DayFromYear y - MonthStart (MonthFromDay d) (InLeapYear y) + 1)"

definition MakeDay :: "int \<Rightarrow> int \<Rightarrow> int \<Rightarrow> int" where
  "MakeDay year month date =
     (let ym = year + month div 12; mn = month mod 12
      in DayFromYear ym + MonthStart mn (InLeapYear ym) + date - 1)"

definition MakeDate :: "int \<Rightarrow> int \<Rightarrow> Date" where
  "MakeDate day time = day * msPerDay + time"

subsection \<open>The methods of \<^verbatim>\<open>Date\<close>\<close>

definition getTime :: "Date \<Rightarrow> int" where
  "getTime t = t"

definition getFullYear :: "Date \<Rightarrow> int" where
  "getFullYear t = YearFromDay (Day t)"

definition getMonth :: "Date \<Rightarrow> int" where
  "getMonth t = MonthFromDay (Day t)"

definition getDate :: "Date \<Rightarrow> int" where
  "getDate t = DateFromDay (Day t)"

definition getDay :: "Date \<Rightarrow> int" where
  "getDay t = (Day t + 4) mod 7"

text \<open>\<^verbatim>\<open>new Date(year, month, date)\<close>: a year from 0 to 99 stands for 1900 + year.\<close>

definition newDate :: "int \<Rightarrow> int \<Rightarrow> int \<Rightarrow> Date" where
  "newDate year month date =
     MakeDate (MakeDay (if 0 \<le> year \<and> year \<le> 99 then 1900 + year else year) month date) 0"

definition setDate :: "Date \<Rightarrow> int \<Rightarrow> Date" where
  "setDate t date = MakeDate (MakeDay (getFullYear t) (getMonth t) date) (TimeWithinDay t)"

definition setMonth :: "Date \<Rightarrow> int \<Rightarrow> int \<Rightarrow> Date" where
  "setMonth t month date = MakeDate (MakeDay (getFullYear t) month date) (TimeWithinDay t)"

definition setFullYear :: "Date \<Rightarrow> int \<Rightarrow> int \<Rightarrow> int \<Rightarrow> Date" where
  "setFullYear t year month date = MakeDate (MakeDay year month date) (TimeWithinDay t)"

text \<open>\<^verbatim>\<open>setHours(0, 0, 0, 0)\<close>, the only use \<^verbatim>\<open>startOfWeek\<close> makes of \<^verbatim>\<open>setHours\<close>.\<close>

definition setHoursZero :: "Date \<Rightarrow> Date" where
  "setHoursZero t = MakeDate (Day t) 0"

subsection \<open>The date-fns helpers\<close>

definition isValid :: "Date \<Rightarrow> bool" where
  "isValid date = True"

definition isNaN :: "int \<Rightarrow> bool" where
  "isNaN n = False"

definition isBefore :: "Date \<Rightarrow> Date \<Rightarrow> bool" where
  "isBefore date dateToCompare = (getTime date < getTime dateToCompare)"

definition addDays :: "Date \<Rightarrow> int \<Rightarrow> Date" where
  "addDays date amount =
     (if amount = 0 then date else setDate date (getDate date + amount))"

definition addWeeks :: "Date \<Rightarrow> int \<Rightarrow> Date" where
  "addWeeks date amount = addDays date (amount * 7)"

definition addMonths :: "Date \<Rightarrow> int \<Rightarrow> Date" where
  "addMonths date amount =
     (if amount = 0 then date
      else
        let dayOfMonth = getDate date;
            endOfDesiredMonth = setMonth date (getMonth date + amount + 1) 0;
            daysInMonth = getDate endOfDesiredMonth
        in if dayOfMonth \<ge> daysInMonth then endOfDesiredMonth
           else setFullYear date (getFullYear endOfDesiredMonth) (getMonth endOfDesiredMonth)
                  dayOfMonth)"

definition addYears :: "Date \<Rightarrow> int \<Rightarrow> Date" where
  "addYears date amount = addMonths date (amount * 12)"

text \<open>\<^verbatim>\<open>startOfWeek(date)\<close> with the default \<^verbatim>\<open>weekStartsOn = 0\<close> (Sunday).\<close>

definition startOfWeek :: "Date \<Rightarrow> Date" where
  "startOfWeek date =
     (let weekStartsOn = 0;
          day = getDay date;
          diff = (if day < weekStartsOn then 7 else 0) + day - weekStartsOn
      in setHoursZero (setDate date (getDate date - diff)))"

text \<open>
  \<^verbatim>\<open>Math.ceil(a / b)\<close> for integers \<open>a\<close> and \<open>b\<close>; lemma \<open>ceilDiv_ceiling\<close> below
  shows that it is the ceiling of the quotient.
\<close>

definition ceilDiv :: "int \<Rightarrow> int \<Rightarrow> int" where
  "ceilDiv a b = - ((- a) div b)"

section \<open>The recurrence engine\<close>

datatype RecurrenceType = Daily | Weekly | Monthly | Yearly

datatype MonthlyRecurrenceType = DayOfMonth | NthDay

record ValidationError =
  field :: string
  message :: string

definition validateDate :: "Date option \<Rightarrow> bool" where
  "validateDate date =
     (case date of None \<Rightarrow> False | Some d \<Rightarrow> isValid d \<and> \<not> isNaN (getTime d))"

definition validateDateRange :: "Date \<Rightarrow> Date option \<Rightarrow> bool" where
  "validateDateRange startDate endDate =
     (case endDate of None \<Rightarrow> True | Some e \<Rightarrow> isValid e \<and> \<not> isBefore e startDate)"

text \<open>
  \<^verbatim>\<open>maxPreviewDates\<close> is a number of days or \<^verbatim>\<open>Infinity\<close>; \<open>lengthBelow dates m\<close> is
  the loop test \<^verbatim>\<open>dates.length < maxPreviewDates\<close>.
\<close>

datatype limit = Finite int | Infinity

fun lengthBelow :: "Date list \<Rightarrow> limit \<Rightarrow> bool" where
  "lengthBelow dates (Finite m) = (int (length dates) < m)"
| "lengthBelow dates Infinity = True"

text \<open>The test \<^verbatim>\<open>(!endDate || date <= endDate)\<close>.\<close>

fun notAfterEnd :: "Date option \<Rightarrow> Date \<Rightarrow> bool" where
  "notAfterEnd None date = True"
| "notAfterEnd (Some e) date = (date \<le> e)"

subsection \<open>\<^verbatim>\<open>getNthDayOfMonth\<close>\<close>

text \<open>
  The loop \<^verbatim>\<open>while (currentDay.getDay() !== dayOfWeek) currentDay = addDays(currentDay, 1)\<close>.
  It runs forever when \<open>dayOfWeek\<close> is no weekday, and then its value is \<open>None\<close>.
\<close>

partial_function (option) findDayOfWeek :: "Date \<Rightarrow> int \<Rightarrow> Date option" where
  "findDayOfWeek currentDay dayOfWeek =
     (if getDay currentDay \<noteq> dayOfWeek then findDayOfWeek (addDays currentDay 1) dayOfWeek
      else Some currentDay)"

declare findDayOfWeek.simps [code]

text \<open>
  \<open>weekCount\<close> is set to 0 and never changed, as in the source. No operation of the model
  throws, so the \<^verbatim>\<open>catch\<close> branch (the result \<^verbatim>\<open>null\<close>) is never taken: \<open>None\<close> is the
  loop that does not return.
\<close>

definition getNthDayOfMonth :: "Date \<Rightarrow> int \<Rightarrow> int \<Rightarrow> Date option" where
  "getNthDayOfMonth date weekNum dayOfWeek =
     (let firstDayOfMonth = newDate (getFullYear date) (getMonth date) 1;
          weekCount = 0
      in do {
           currentDay \<leftarrow> findDayOfWeek firstDayOfMonth dayOfWeek;
           let targetDate = addWeeks currentDay (weekNum - 1);
           if getMonth targetDate \<noteq> getMonth date
             then Some (addWeeks currentDay (weekCount - 1))
             else Some targetDate
         })"

subsection \<open>\<^verbatim>\<open>calculatePreviewDates\<close>\<close>

text \<open>
  \<^verbatim>\<open>interface NthDayConfig\<close>; its comments give \<open>weekNum\<close> the range 1 to 5 and
  \<open>dayOfWeek\<close> the range 0 to 6. (The record stands after \<open>getNthDayOfMonth\<close>, whose
  parameters have the names of its fields.)
\<close>

record NthDayConfig =
  weekNum :: int
  dayOfWeek :: int

text \<open>
  The \<^verbatim>\<open>for (const day of selectedDays)\<close> loop of one week, with its \<^verbatim>\<open>break\<close>.
\<close>

fun forSelectedDays ::
  "Date \<Rightarrow> Date option \<Rightarrow> limit \<Rightarrow> Date \<Rightarrow> int list \<Rightarrow> Date list \<Rightarrow> Date list" where
  "forSelectedDays startDate endDate maxPreviewDates weekStart [] dates = dates"
| "forSelectedDays startDate endDate maxPreviewDates weekStart (day # days) dates =
     (let nextDate = addDays weekStart day
      in if nextDate \<ge> startDate \<and> notAfterEnd endDate nextDate
         then
           let dates' = dates @ [nextDate]
           in if \<not> lengthBelow dates' maxPreviewDates then dates'
              else forSelectedDays startDate endDate maxPreviewDates weekStart days dates'
         else forSelectedDays startDate endDate maxPreviewDates weekStart days dates)"

text \<open>The \<^verbatim>\<open>while\<close> loop of the weekly branch.\<close>

partial_function (option) weeklyLoop ::
  "Date \<Rightarrow> int \<Rightarrow> Date option \<Rightarrow> int list \<Rightarrow> limit \<Rightarrow> Date \<Rightarrow> Date \<Rightarrow> Date list
   \<Rightarrow> Date list option" where
  "weeklyLoop startDate interval endDate selectedDays maxPreviewDates currentDate weekStart dates =
     (if lengthBelow dates maxPreviewDates \<and> notAfterEnd endDate currentDate
      then
        weeklyLoop startDate interval endDate selectedDays maxPreviewDates
          (addWeeks weekStart interval) (addWeeks weekStart interval)
          (forSelectedDays startDate endDate maxPreviewDates weekStart selectedDays dates)
      else Some dates)"

declare weeklyLoop.simps [code]

text \<open>
  The \<^verbatim>\<open>switch (recurrenceType)\<close> that moves the cursor. It has no case for
  \<^verbatim>\<open>'weekly'\<close>, which reaches it when \<open>selectedDays\<close> is empty.
\<close>

fun advance :: "RecurrenceType \<Rightarrow> Date \<Rightarrow> int \<Rightarrow> Date" where
  "advance Daily currentDate interval = addDays currentDate interval"
| "advance Monthly currentDate interval = addMonths currentDate interval"
| "advance Yearly currentDate interval = addYears currentDate interval"
| "advance Weekly currentDate interval = currentDate"

text \<open>The second \<^verbatim>\<open>while\<close> loop.\<close>

partial_function (option) mainLoop ::
  "Date \<Rightarrow> RecurrenceType \<Rightarrow> int \<Rightarrow> Date option \<Rightarrow> MonthlyRecurrenceType
   \<Rightarrow> NthDayConfig option \<Rightarrow> limit \<Rightarrow> Date \<Rightarrow> Date list \<Rightarrow> Date list option" where
  "mainLoop startDate recurrenceType interval endDate monthlyRecurrenceType nthDayConfig
     maxPreviewDates currentDate dates =
     (if lengthBelow dates maxPreviewDates \<and> notAfterEnd endDate currentDate
      then do {
        dates' \<leftarrow>
          (if recurrenceType = Monthly \<and> monthlyRecurrenceType = NthDay \<and> nthDayConfig \<noteq> None
           then do {
             nthDate \<leftarrow> getNthDayOfMonth currentDate (weekNum (the nthDayConfig))
                          (dayOfWeek (the nthDayConfig));
             Some (if nthDate \<ge> startDate \<and> notAfterEnd endDate nthDate
                   then dates @ [nthDate] else dates)
           }
           else Some (dates @ [currentDate]));
        mainLoop startDate recurrenceType interval endDate monthlyRecurrenceType nthDayConfig
          maxPreviewDates (advance recurrenceType currentDate interval) dates'
      }
      else Some dates)"

declare mainLoop.simps [code]

text \<open>
  \<open>calculatePreviewDates\<close> returns \<open>Some\<close> of the array it returns, and \<open>None\<close> when one
  of its loops runs forever. \<^verbatim>\<open>dates.sort((a, b) => a.getTime() - b.getTime())\<close> is a
  stable sort by time value. Nothing throws in the model, so the \<^verbatim>\<open>catch\<close> branch
  (the result \<^verbatim>\<open>[startDate]\<close>) is never taken.
\<close>

definition calculatePreviewDates ::
  "Date \<Rightarrow> RecurrenceType option \<Rightarrow> int \<Rightarrow> Date option \<Rightarrow> int list \<Rightarrow> MonthlyRecurrenceType
   \<Rightarrow> NthDayConfig option \<Rightarrow> Date list option" where
  "calculatePreviewDates startDate recurrenceType interval endDate selectedDays
     monthlyRecurrenceType nthDayConfig =
     (if recurrenceType = None \<or> \<not> validateDate (Some startDate) then Some [startDate]
      else
        let maxPreviewDates =
              (case endDate of
                 Some e \<Rightarrow> Finite (ceilDiv (getTime e - getTime startDate) (1000 * 3600 * 24))
               | None \<Rightarrow> Infinity)
        in if recurrenceType = Some Weekly \<and> length selectedDays > 0
           then
             map_option (sort_key getTime)
               (weeklyLoop startDate interval endDate selectedDays maxPreviewDates
                  startDate (startOfWeek startDate) [])
           else
             mainLoop startDate (the recurrenceType) interval endDate monthlyRecurrenceType
               nthDayConfig maxPreviewDates startDate [])"

section \<open>The store\<close>

record DatePickerState =
  selectedDate :: Date
  endDate :: "Date option"
  recurrenceType :: "RecurrenceType option"
  recurrenceInterval :: int
  selectedDays :: "int list"
  monthlyRecurrenceType :: MonthlyRecurrenceType
  nthDayConfig :: "NthDayConfig option"
  previewDates :: "Date list"
  errors :: "ValidationError list"

text \<open>
  An action of the store is a sequence of \<^verbatim>\<open>set\<close> calls, each a record update. The
  actions end with \<^verbatim>\<open>get().updatePreviewDates()\<close>, which may not return; the store then
  keeps what the last \<^verbatim>\<open>set\<close> wrote. An action's outcome is therefore the content of the
  store together with whether the action returned.
\<close>

datatype outcome = Returned (store: DatePickerState) | Hung (store: DatePickerState)

text \<open>\<open>validateState\<close> returns the errors and writes them to the store.\<close>

definition validateState :: "DatePickerState \<Rightarrow> ValidationError list \<times> DatePickerState" where
  "validateState state =
     (let errors0 = [];
          errors1 =
            (if \<not> validateDate (Some (selectedDate state))
             then errors0 @ [\<lparr>field = ''startDate'', message = ''Invalid start date''\<rparr>]
             else errors0);
          errors2 =
            (if endDate state \<noteq> None \<and> \<not> validateDateRange (selectedDate state) (endDate state)
             then errors1 @ [\<lparr>field = ''dateRange'', message = ''End date must be after start date''\<rparr>]
             else errors1);
          errors3 =
            (if recurrenceType state = Some Weekly \<and> length (selectedDays state) = 0
             then errors2 @
               [\<lparr>field = ''selectedDays'',
                 message = ''Select at least one day for weekly recurrence''\<rparr>]
             else errors2);
          errors4 =
            (if recurrenceInterval state < 1
             then errors3 @ [\<lparr>field = ''interval'', message = ''Interval must be at least 1''\<rparr>]
             else errors3)
      in (errors4, state\<lparr>errors := errors4\<rparr>))"

text \<open>
  In \<open>updatePreviewDates\<close> no operation of the model throws, so the \<^verbatim>\<open>catch\<close> branch is
  never taken.
\<close>

definition updatePreviewDates :: "DatePickerState \<Rightarrow> outcome" where
  "updatePreviewDates state =
     (let (errs, state') = validateState state
      in if length errs > 0 then Returned state'
         else
           case calculatePreviewDates (selectedDate state) (recurrenceType state)
                  (recurrenceInterval state) (endDate state) (selectedDays state)
                  (monthlyRecurrenceType state) (nthDayConfig state) of
             None \<Rightarrow> Hung state'
           | Some newPreviewDates \<Rightarrow> Returned (state'\<lparr>previewDates := newPreviewDates\<rparr>))"

definition setRecurrenceType :: "RecurrenceType option \<Rightarrow> DatePickerState \<Rightarrow> outcome" where
  "setRecurrenceType type state =
     (let state1 = state\<lparr>recurrenceType := type, errors := []\<rparr>;
          state2 =
            (if type = Some Weekly \<and> length (selectedDays state1) = 0
             then state1\<lparr>selectedDays := [getDay (selectedDate state1)]\<rparr>
             else state1)
      in updatePreviewDates state2)"

definition setRecurrenceInterval :: "int \<Rightarrow> DatePickerState \<Rightarrow> outcome" where
  "setRecurrenceInterval interval state =
     (if interval < 1
      then Returned (state\<lparr>errors := [\<lparr>field = ''interval'', message = ''Interval must be at least 1''\<rparr>]\<rparr>)
      else updatePreviewDates (state\<lparr>recurrenceInterval := interval, errors := []\<rparr>))"

definition setSelectedDays :: "int list \<Rightarrow> DatePickerState \<Rightarrow> outcome" where
  "setSelectedDays days state =
     (if recurrenceType state = Some Weekly \<and> length days = 0
      then Returned (state\<lparr>errors :=
             [\<lparr>field = ''selectedDays'',
               message = ''Select at least one day for weekly recurrence''\<rparr>]\<rparr>)
      else updatePreviewDates (state\<lparr>selectedDays := days, errors := []\<rparr>))"

definition setMonthlyRecurrenceType :: "MonthlyRecurrenceType \<Rightarrow> DatePickerState \<Rightarrow> outcome" where
  "setMonthlyRecurrenceType type state =
     updatePreviewDates (state\<lparr>monthlyRecurrenceType := type, errors := []\<rparr>)"

definition setNthDayConfig :: "NthDayConfig option \<Rightarrow> DatePickerState \<Rightarrow> outcome" where
  "setNthDayConfig config state =
     updatePreviewDates (state\<lparr>nthDayConfig := config, errors := []\<rparr>)"

definition clearErrors :: "DatePickerState \<Rightarrow> DatePickerState" where
  "clearErrors state = state\<lparr>errors := []\<rparr>"

text \<open>
  The initial content of the store; \<open>now\<close> is the value of both calls of \<^verbatim>\<open>new Date()\<close>.
\<close>

definition initialState :: "Date \<Rightarrow> DatePickerState" where
  "initialState now =
     \<lparr>selectedDate = now, endDate = None, recurrenceType = None, recurrenceInterval = 1,
      selectedDays = [], monthlyRecurrenceType = DayOfMonth, nthDayConfig = None,
      previewDates = [now], errors = []\<rparr>"

text \<open>The call of \<open>calculatePreviewDates\<close> that \<open>updatePreviewDates\<close> makes.\<close>

abbreviation previewOf :: "DatePickerState \<Rightarrow> Date list option" where
  "previewOf s \<equiv>
     calculatePreviewDates (selectedDate s) (recurrenceType s) (recurrenceInterval s) (endDate s)
       (selectedDays s) (monthlyRecurrenceType s) (nthDayConfig s)"

section \<open>Auxiliary definitions\<close>

text \<open>The definitions below are not part of the code; the properties are stated with them.\<close>

text \<open>
  Months are counted by the index \<open>k = 12 * year + month\<close>: \<open>FirstOfMonth k\<close> is the day
  number of the first day of month \<open>k\<close> and \<open>MonthLength k\<close> the number of its days.
\<close>

definition FirstOfMonth :: "int \<Rightarrow> int" where
  "FirstOfMonth k = DayFromYear (k div 12) + MonthStart (k mod 12) (InLeapYear (k div 12))"

definition MonthLength :: "int \<Rightarrow> int" where
  "MonthLength k =
     MonthStart (k mod 12 + 1) (InLeapYear (k div 12)) - MonthStart (k mod 12) (InLeapYear (k div 12))"

text \<open>The month of a date, as an index \<open>12 * year + month\<close>.\<close>

definition monthIndex :: "Date \<Rightarrow> int" where
  "monthIndex t = 12 * getFullYear t + getMonth t"

text \<open>
  What claim C4 expects of a daily rule: \<open>dailyDates start interval e\<close> lists the dates
  \<open>start + k * interval\<close> days, for \<open>k = 0, 1, \<dots>\<close>, that are not after \<open>e\<close> (lemma
  \<open>dailyDates_set\<close>). It is not part of the code.
\<close>

definition dailyDates :: "Date \<Rightarrow> int \<Rightarrow> Date \<Rightarrow> Date list" where
  "dailyDates start interval e =
     map (\<lambda>k. addDays start (int k * interval))
       [0 ..< nat ((e - start) div (interval * msPerDay) + 1)]"

text \<open>
  The states used as examples: the last Friday of every month from 2024-03-01 to 2024-05-31,
  and every day from 2024-01-01 to 2024-01-03. Dates are written as
  \<^verbatim>\<open>new Date(year, month, date)\<close> writes them, months counted from 0.
\<close>

definition lastFridayState :: DatePickerState where
  "lastFridayState =
     (initialState (newDate 2024 2 1))
       \<lparr>endDate := Some (newDate 2024 4 31), recurrenceType := Some Monthly,
        monthlyRecurrenceType := NthDay,
        nthDayConfig := Some \<lparr>weekNum = 5, dayOfWeek = 5\<rparr>\<rparr>"

definition threeDaysState :: DatePickerState where
  "threeDaysState =
     (initialState (newDate 2024 0 1))
       \<lparr>endDate := Some (newDate 2024 0 3), recurrenceType := Some Daily\<rparr>"

section \<open>Properties of the date model\<close>

subsection \<open>Years and months\<close>

lemma DayFromYear_mono: "y \<le> z \<Longrightarrow> DayFromYear y \<le> DayFromYear z"
proof (induction z rule: int_ge_induct)
  case base
  show ?case by simp
next
  case (step i)
  then show ?case using DaysInYear_pos[of i] by (simp add: DayFromYear_step)
qed

lemma yearUp_spec:
  "DayFromYear y \<le> d \<Longrightarrow>
   DayFromYear (yearUp y d) \<le> d \<and> d < DayFromYear (yearUp y d + 1)"
proof (induction y d rule: yearUp.induct)
  case (1 y d)
  show ?case
  proof (cases "DayFromYear (y + 1) \<le> d")
    case True
    then show ?thesis using "1.IH" by (subst (1 2) yearUp.simps) simp
  next
    case False
    then show ?thesis using "1.prems" by (subst (1 2) yearUp.simps) simp
  qed
qed

lemma yearDown_spec:
  "d < DayFromYear (y + 1) \<Longrightarrow>
   DayFromYear (yearDown y d) \<le> d \<and> d < DayFromYear (yearDown y d + 1)"
proof (induction y d rule: yearDown.induct)
  case (1 y d)
  show ?case
  proof (cases "d < DayFromYear y")
    case True
    then show ?thesis using "1.IH" by (subst (1 2) yearDown.simps) simp
  next
    case False
    then show ?thesis using "1.prems" by (subst (1 2) yearDown.simps) simp
  qed
qed

lemma YearFromDay_spec:
  "DayFromYear (YearFromDay d) \<le> d \<and> d < DayFromYear (YearFromDay d + 1)"
proof (cases "DayFromYear (1970 + d div 365) \<le> d")
  case True
  then show ?thesis using yearUp_spec[of "1970 + d div 365" d] by (simp add: YearFromDay_def Let_def)
next
  case False
  then have "d < DayFromYear (1970 + d div 365 - 1 + 1)" by simp
  from yearDown_spec[OF this] False show ?thesis by (simp add: YearFromDay_def Let_def)
qed

lemma YearFromDay_unique:
  assumes "DayFromYear y \<le> d" and "d < DayFromYear (y + 1)"
  shows "YearFromDay d = y"
proof (rule ccontr)
  assume ne: "YearFromDay d \<noteq> y"
  let ?z = "YearFromDay d"
  from YearFromDay_spec[of d] have z: "DayFromYear ?z \<le> d" "d < DayFromYear (?z + 1)" by auto
  show False
  proof (cases "?z < y")
    case True
    then have "DayFromYear (?z + 1) \<le> DayFromYear y" by (intro DayFromYear_mono) simp
    with z assms show False by simp
  next
    case False
    with ne have "DayFromYear (y + 1) \<le> DayFromYear ?z" by (intro DayFromYear_mono) simp
    with z assms show False by simp
  qed
qed


lemma InLeapYear_range: "0 \<le> InLeapYear y \<and> InLeapYear y \<le> 1"
  by (simp add: InLeapYear_def)

lemma DaysInYear_InLeapYear: "DaysInYear y = 365 + InLeapYear y"
  by (simp add: InLeapYear_def DaysInYear_def)

lemma month_disj:
  fixes m :: int
  assumes "0 \<le> m" and "m \<le> 11"
  shows "m = 0 \<or> m = 1 \<or> m = 2 \<or> m = 3 \<or> m = 4 \<or> m = 5 \<or> m = 6
    \<or> m = 7 \<or> m = 8 \<or> m = 9 \<or> m = 10 \<or> m = 11"
proof -
  have "m = 0 \<or> m = 1 \<or> m = 2 \<or> 3 \<le> m" using assms by linarith
  moreover have "3 \<le> m \<Longrightarrow> m = 3 \<or> m = 4 \<or> m = 5 \<or> 6 \<le> m" by linarith
  moreover have "6 \<le> m \<Longrightarrow> m = 6 \<or> m = 7 \<or> m = 8 \<or> 9 \<le> m" by linarith
  moreover have "9 \<le> m \<Longrightarrow> m = 9 \<or> m = 10 \<or> m = 11" using assms by linarith
  ultimately show ?thesis by blast
qed

lemma month_cases:
  fixes m :: int
  assumes "0 \<le> m" and "m \<le> 11"
  obtains "m = 0" | "m = 1" | "m = 2" | "m = 3" | "m = 4" | "m = 5" | "m = 6"
    | "m = 7" | "m = 8" | "m = 9" | "m = 10" | "m = 11"
  using month_disj[OF assms] by blast

lemma MonthStart_next:
  assumes "0 \<le> m" and "m \<le> 11" and "0 \<le> l" and "l \<le> 1"
  shows "28 \<le> MonthStart (m + 1) l - MonthStart m l \<and> MonthStart (m + 1) l - MonthStart m l \<le> 31"
  using assms(1,2) by (rule month_cases) (use assms(3,4) in \<open>simp_all add: MonthStart_def\<close>)

lemma MonthStart_range:
  assumes "0 \<le> m" and "m \<le> 11" and "0 \<le> l" and "l \<le> 1"
  shows "0 \<le> MonthStart m l \<and> MonthStart (m + 1) l \<le> 365 + l"
  using assms(1,2) by (rule month_cases) (use assms(3,4) in \<open>simp_all add: MonthStart_def\<close>)

lemma MonthOfYearDay_eq:
  assumes "0 \<le> m" and "m \<le> 11" and "0 \<le> l" and "l \<le> 1"
    and "MonthStart m l \<le> w" and "w < MonthStart (m + 1) l"
  shows "MonthOfYearDay w l = m"
  using assms(1,2) by (rule month_cases) (use assms(3-) in \<open>simp_all add: MonthStart_def MonthOfYearDay_def\<close>)

lemma MonthOfYearDay_range:
  assumes "0 \<le> w" and "w < 365 + l" and "0 \<le> l" and "l \<le> 1"
  shows "0 \<le> MonthOfYearDay w l \<and> MonthOfYearDay w l \<le> 11
     \<and> MonthStart (MonthOfYearDay w l) l \<le> w \<and> w < MonthStart (MonthOfYearDay w l + 1) l"
  using assms by (simp add: MonthOfYearDay_def MonthStart_def)


lemma mod12_range: "0 \<le> k mod 12 \<and> k mod 12 \<le> 11" for k :: int
proof -
  have "k mod 12 < 12" by simp
  then show ?thesis by simp
qed

lemma mod12_step: "(k + 1) mod 12 = (if k mod 12 = 11 then 0 else k mod 12 + 1)" for k :: int
proof -
  have e: "(k + 1) mod 12 = (k mod 12 + 1) mod 12" by (simp add: mod_add_left_eq)
  show ?thesis
  proof (cases "k mod 12 = 11")
    case True
    then show ?thesis by (simp add: e)
  next
    case False
    then have "0 \<le> k mod 12 + 1" "k mod 12 + 1 < 12" using mod12_range[of k] by simp_all
    then have "(k mod 12 + 1) mod 12 = k mod 12 + 1" by (rule mod_pos_pos_trivial)
    with False show ?thesis by (simp add: e)
  qed
qed

lemma div12_step: "(k + 1) div 12 = (if k mod 12 = 11 then k div 12 + 1 else k div 12)" for k :: int
  using div_step_gen[of 12 k] by (simp add: mod12_step)

lemma MonthLength_range: "28 \<le> MonthLength k \<and> MonthLength k \<le> 31"
  unfolding MonthLength_def
  using MonthStart_next[of "k mod 12" "InLeapYear (k div 12)"] mod12_range[of k]
    InLeapYear_range[of "k div 12"]
  by simp

lemma FirstOfMonth_step: "FirstOfMonth (k + 1) = FirstOfMonth k + MonthLength k"
proof (cases "k mod 12 = 11")
  case True
  then show ?thesis
    by (simp add: FirstOfMonth_def MonthLength_def mod12_step div12_step DayFromYear_step
        DaysInYear_InLeapYear MonthStart_def)
next
  case False
  then show ?thesis
    by (simp add: FirstOfMonth_def MonthLength_def mod12_step div12_step)
qed

lemma FirstOfMonth_mono: "k < j \<Longrightarrow> FirstOfMonth k + MonthLength k \<le> FirstOfMonth j"
proof (induction j rule: int_gr_induct)
  case base
  show ?case by (simp add: FirstOfMonth_step)
next
  case (step i)
  then show ?case using MonthLength_range[of i] by (simp add: FirstOfMonth_step)
qed

lemma civil_of_month:
  assumes "1 \<le> d" and "d \<le> MonthLength k"
  shows "YearFromDay (FirstOfMonth k + d - 1) = k div 12"
    and "MonthFromDay (FirstOfMonth k + d - 1) = k mod 12"
    and "DateFromDay (FirstOfMonth k + d - 1) = d"
proof -
  let ?y = "k div 12" and ?m = "k mod 12"
  let ?l = "InLeapYear ?y"
  let ?w = "MonthStart ?m ?l + d - 1"
  have m: "0 \<le> ?m" "?m \<le> 11" using mod12_range[of k] by simp_all
  have l: "0 \<le> ?l" "?l \<le> 1" using InLeapYear_range[of ?y] by simp_all
  have w1: "MonthStart ?m ?l \<le> ?w" using assms by simp
  have w2: "?w < MonthStart (?m + 1) ?l" using assms by (simp add: MonthLength_def)
  have r: "0 \<le> MonthStart ?m ?l" "MonthStart (?m + 1) ?l \<le> 365 + ?l"
    using MonthStart_range[OF m l] by simp_all
  have e: "FirstOfMonth k + d - 1 = DayFromYear ?y + ?w" by (simp add: FirstOfMonth_def)
  have "DayFromYear ?y \<le> DayFromYear ?y + ?w" using w1 r by simp
  moreover have "DayFromYear ?y + ?w < DayFromYear (?y + 1)"
    using w2 r by (simp add: DayFromYear_step DaysInYear_InLeapYear)
  ultimately have y: "YearFromDay (DayFromYear ?y + ?w) = ?y" by (rule YearFromDay_unique)
  then show "YearFromDay (FirstOfMonth k + d - 1) = k div 12" by (simp add: e)
  have mm: "MonthOfYearDay ?w ?l = ?m" using m l w1 w2 by (rule MonthOfYearDay_eq)
  then show mf: "MonthFromDay (FirstOfMonth k + d - 1) = k mod 12"
    by (simp add: e MonthFromDay_def Let_def y)
  show "DateFromDay (FirstOfMonth k + d - 1) = d"
    using mf y by (simp add: DateFromDay_def Let_def e)
qed

lemma month_of_civil:
  fixes d :: int
  defines "k \<equiv> 12 * YearFromDay d + MonthFromDay d"
  shows "d = FirstOfMonth k + DateFromDay d - 1"
    and "1 \<le> DateFromDay d" and "DateFromDay d \<le> MonthLength k"
    and "k div 12 = YearFromDay d" and "k mod 12 = MonthFromDay d"
proof -
  let ?y = "YearFromDay d"
  let ?l = "InLeapYear ?y"
  let ?w = "d - DayFromYear ?y"
  let ?m = "MonthOfYearDay ?w ?l"
  have l: "0 \<le> ?l" "?l \<le> 1" using InLeapYear_range[of ?y] by simp_all
  have w: "0 \<le> ?w" "?w < 365 + ?l"
    using YearFromDay_spec[of d] by (simp_all add: DayFromYear_step DaysInYear_InLeapYear)
  from MonthOfYearDay_range[OF w l]
  have m: "0 \<le> ?m" "?m \<le> 11" "MonthStart ?m ?l \<le> ?w" "?w < MonthStart (?m + 1) ?l"
    by simp_all
  have mf: "MonthFromDay d = ?m" by (simp add: MonthFromDay_def Let_def)
  have kd: "k div 12 = ?y" and km: "k mod 12 = ?m"
    using m(1,2) by (simp_all add: k_def mf)
  show "k div 12 = YearFromDay d" by (rule kd)
  show "k mod 12 = MonthFromDay d" by (simp add: km mf)
  have dd: "DateFromDay d = ?w - MonthStart ?m ?l + 1" by (simp add: DateFromDay_def Let_def mf)
  show "d = FirstOfMonth k + DateFromDay d - 1" by (simp add: FirstOfMonth_def kd km dd)
  show "1 \<le> DateFromDay d" using m(3) by (simp add: dd)
  show "DateFromDay d \<le> MonthLength k" using m(4) by (simp add: dd MonthLength_def kd km)
qed

lemma MakeDay_FirstOfMonth: "MakeDay y m d = FirstOfMonth (12 * y + m) + d - 1"
  by (simp add: MakeDay_def FirstOfMonth_def Let_def)


subsection \<open>Time values and days\<close>

lemma msPerDay_pos: "0 < msPerDay"
  by (simp add: msPerDay_def)

lemma TimeWithinDay_range: "0 \<le> TimeWithinDay t \<and> TimeWithinDay t < msPerDay"
  using msPerDay_pos by (simp add: TimeWithinDay_def)

lemma MakeDate_Day: "MakeDate (Day t) (TimeWithinDay t) = t"
  by (simp add: MakeDate_def Day_def TimeWithinDay_def)

lemma Day_MakeDate:
  assumes "0 \<le> s" and "s < msPerDay"
  shows "Day (MakeDate d s) = d" and "TimeWithinDay (MakeDate d s) = s"
proof -
  have e: "MakeDate d s = msPerDay * d + s" by (simp add: MakeDate_def)
  show "Day (MakeDate d s) = d" unfolding Day_def by (rule int_div_pos_eq[OF e assms])
  show "TimeWithinDay (MakeDate d s) = s"
    unfolding TimeWithinDay_def by (rule int_mod_pos_eq[OF e assms])
qed

lemma Day_add_days: "Day (t + n * msPerDay) = Day t + n"
  using msPerDay_pos by (simp add: Day_def)

lemma TimeWithinDay_add_days: "TimeWithinDay (t + n * msPerDay) = TimeWithinDay t"
  by (simp add: TimeWithinDay_def)

lemma Day_mono: "s \<le> t \<Longrightarrow> Day s \<le> Day t"
  using msPerDay_pos by (simp add: Day_def zdiv_mono1)

lemma Day_civil: "Day t = FirstOfMonth (monthIndex t) + getDate t - 1"
  using month_of_civil(1)[of "Day t"]
  by (simp add: monthIndex_def getFullYear_def getMonth_def getDate_def)

lemma getDate_range: "1 \<le> getDate t \<and> getDate t \<le> MonthLength (monthIndex t)"
  using month_of_civil(2,3)[of "Day t"]
  by (simp add: monthIndex_def getFullYear_def getMonth_def getDate_def)

lemma getMonth_range: "0 \<le> getMonth t \<and> getMonth t \<le> 11"
  using month_of_civil(5)[of "Day t"] mod12_range[of "12 * YearFromDay (Day t) + MonthFromDay (Day t)"]
  by (simp add: getMonth_def)

lemma setDate_eq: "setDate t d = t + (d - getDate t) * msPerDay"
proof -
  have "MakeDay (getFullYear t) (getMonth t) d = Day t + (d - getDate t)"
    using Day_civil[of t] by (simp add: MakeDay_FirstOfMonth monthIndex_def)
  then have "setDate t d = MakeDate (Day t + (d - getDate t)) (TimeWithinDay t)"
    by (simp add: setDate_def)
  also have "\<dots> = MakeDate (Day t) (TimeWithinDay t) + (d - getDate t) * msPerDay"
    by (simp add: MakeDate_def algebra_simps)
  finally show ?thesis by (simp add: MakeDate_Day)
qed

lemma addDays_eq: "addDays t n = t + n * msPerDay"
  by (simp add: addDays_def setDate_eq)

lemma addWeeks_eq: "addWeeks t n = t + n * 7 * msPerDay"
  by (simp add: addWeeks_def addDays_eq)

lemma getDay_range: "0 \<le> getDay t \<and> getDay t \<le> 6"
proof -
  have "(Day t + 4) mod 7 < 7" by simp
  then show ?thesis by (simp add: getDay_def)
qed

lemma getDay_add_days: "getDay (t + n * msPerDay) = (getDay t + n) mod 7"
  unfolding getDay_def Day_add_days by (simp add: mod_simps ac_simps)

lemma startOfWeek_eq: "startOfWeek t = (Day t - getDay t) * msPerDay"
proof -
  have "startOfWeek t = setHoursZero (t + (- getDay t) * msPerDay)"
    using getDay_range[of t] by (simp add: startOfWeek_def setDate_eq Let_def)
  also have "\<dots> = (Day t - getDay t) * msPerDay"
    unfolding setHoursZero_def Day_add_days by (simp add: MakeDate_def)
  finally show ?thesis .
qed

lemma startOfWeek_le: "startOfWeek t \<le> t"
proof -
  have "Day t * msPerDay \<le> t"
    using msPerDay_pos TimeWithinDay_range[of t] MakeDate_Day[of t] by (simp add: MakeDate_def)
  moreover have "(Day t - getDay t) * msPerDay \<le> Day t * msPerDay"
    using getDay_range[of t] msPerDay_pos by (simp add: mult_right_mono)
  ultimately show ?thesis by (simp add: startOfWeek_eq)
qed

text \<open>
  \<open>addMonths\<close> lands in the month \<open>amount\<close> months on, on the same day of the month or
  on the last day of a shorter month, at the same time of day.
\<close>

lemma addMonths_eq:
  assumes "amount \<noteq> 0"
  shows "addMonths t amount =
    MakeDate
      (FirstOfMonth (monthIndex t + amount)
        + min (getDate t) (MonthLength (monthIndex t + amount)) - 1)
      (TimeWithinDay t)"
proof -
  let ?k = "monthIndex t + amount"
  let ?s = "TimeWithinDay t"
  let ?e = "setMonth t (getMonth t + amount + 1) 0"
  have s: "0 \<le> ?s" "?s < msPerDay" using TimeWithinDay_range[of t] by simp_all
  have len: "1 \<le> MonthLength ?k" "MonthLength ?k \<le> MonthLength ?k"
    using MonthLength_range[of ?k] by simp_all
  have "MakeDay (getFullYear t) (getMonth t + amount + 1) 0 = FirstOfMonth (?k + 1) - 1"
    by (simp add: MakeDay_FirstOfMonth monthIndex_def algebra_simps)
  then have e: "?e = MakeDate (FirstOfMonth ?k + MonthLength ?k - 1) ?s"
    by (simp add: setMonth_def FirstOfMonth_step)
  have de: "Day ?e = FirstOfMonth ?k + MonthLength ?k - 1"
    unfolding e by (rule Day_MakeDate(1)[OF s])
  have gd: "getDate ?e = MonthLength ?k"
    unfolding getDate_def de by (rule civil_of_month(3)[OF len])
  have gy: "getFullYear ?e = ?k div 12"
    unfolding getFullYear_def de by (rule civil_of_month(1)[OF len])
  have "getMonth ?e = MonthFromDay (Day ?e)" by (rule getMonth_def)
  also have "\<dots> = ?k mod 12" unfolding de by (rule civil_of_month(2)[OF len])
  finally have gm: "getMonth ?e = ?k mod 12" .
  have k: "12 * (?k div 12) + ?k mod 12 = ?k" by simp
  have "addMonths t amount =
      (if getDate t \<ge> getDate ?e then ?e
       else setFullYear t (getFullYear ?e) (getMonth ?e) (getDate t))"
    using assms by (simp add: addMonths_def Let_def)
  then have u: "addMonths t amount =
      (if getDate t \<ge> MonthLength ?k then ?e
       else setFullYear t (?k div 12) (?k mod 12) (getDate t))"
    by (simp only: gd gy gm)
  show ?thesis
  proof (cases "getDate t \<ge> MonthLength ?k")
    case True
    then have "addMonths t amount = ?e" by (simp only: u if_True)
    then show ?thesis using True by (simp only: e min_def) simp
  next
    case False
    then have "addMonths t amount = setFullYear t (?k div 12) (?k mod 12) (getDate t)"
      by (simp only: u if_False)
    also have "\<dots> = MakeDate (FirstOfMonth ?k + getDate t - 1) ?s"
      unfolding setFullYear_def MakeDay_FirstOfMonth k by simp
    finally show ?thesis using False by (simp add: min_def)
  qed
qed

lemma addMonths_later:
  assumes "1 \<le> amount"
  shows "t + msPerDay \<le> addMonths t amount"
proof -
  let ?k = "monthIndex t"
  let ?d = "min (getDate t) (MonthLength (?k + amount))"
  have "1 \<le> ?d" using getDate_range[of t] MonthLength_range[of "?k + amount"] by simp
  moreover have "FirstOfMonth ?k + MonthLength ?k \<le> FirstOfMonth (?k + amount)"
    using assms by (intro FirstOfMonth_mono) simp
  ultimately have "Day t + 1 \<le> FirstOfMonth (?k + amount) + ?d - 1"
    using Day_civil[of t] getDate_range[of t] by linarith
  then have "(Day t + 1) * msPerDay \<le> (FirstOfMonth (?k + amount) + ?d - 1) * msPerDay"
    using msPerDay_pos by (simp add: mult_right_mono)
  then have "MakeDate (Day t) (TimeWithinDay t) + msPerDay
      \<le> MakeDate (FirstOfMonth (?k + amount) + ?d - 1) (TimeWithinDay t)"
    by (simp add: MakeDate_def algebra_simps)
  then show ?thesis using assms by (simp add: addMonths_eq MakeDate_Day)
qed

lemma addYears_later: "1 \<le> amount \<Longrightarrow> t + msPerDay \<le> addYears t amount"
  unfolding addYears_def by (rule addMonths_later) simp

lemma ceilDiv_ceiling: "ceilDiv a b = \<lceil>real_of_int a / real_of_int b\<rceil>"
proof -
  have "\<lceil>real_of_int a / real_of_int b\<rceil> = - \<lfloor>real_of_int (- a) / real_of_int b\<rfloor>"
    by (simp add: ceiling_def)
  also have "\<dots> = - ((- a) div b)"
    by (simp only: floor_divide_of_int_eq)
  finally show ?thesis by (simp add: ceilDiv_def)
qed

lemma Day_of_midnight: "Day (d * msPerDay) = d"
  using Day_add_days[of 0 d] msPerDay_pos by (simp add: Day_def)

lemma Day_less: "Day s < Day t \<Longrightarrow> s < t"
  using Day_mono[of t s] by (cases "s < t") simp_all

lemma monthIndex_div_mod: "monthIndex t div 12 = getFullYear t" "monthIndex t mod 12 = getMonth t"
  using month_of_civil(4,5)[of "Day t"]
  by (simp_all add: monthIndex_def getFullYear_def getMonth_def)

lemma civil_in_month:
  assumes "FirstOfMonth k \<le> Day t" and "Day t < FirstOfMonth k + MonthLength k"
  shows "monthIndex t = k"
proof -
  let ?d = "Day t - FirstOfMonth k + 1"
  have d: "1 \<le> ?d" "?d \<le> MonthLength k" using assms by simp_all
  have e: "FirstOfMonth k + ?d - 1 = Day t" by simp
  from civil_of_month(1,2)[OF d] have "getFullYear t = k div 12" "getMonth t = k mod 12"
    by (simp_all only: e getFullYear_def getMonth_def)
  then show ?thesis by (simp add: monthIndex_def)
qed

lemma monthIndex_addMonths:
  assumes "amount \<noteq> 0"
  shows "monthIndex (addMonths t amount) = monthIndex t + amount"
proof -
  let ?k = "monthIndex t + amount"
  let ?d = "min (getDate t) (MonthLength ?k)"
  have d: "1 \<le> ?d" "?d \<le> MonthLength ?k"
    using getDate_range[of t] MonthLength_range[of ?k] by simp_all
  have s: "0 \<le> TimeWithinDay t" "TimeWithinDay t < msPerDay" using TimeWithinDay_range[of t] by simp_all
  have "Day (addMonths t amount) = FirstOfMonth ?k + ?d - 1"
    unfolding addMonths_eq[OF assms] by (rule Day_MakeDate(1)[OF s])
  then show ?thesis using d by (intro civil_in_month) simp_all
qed

lemma mult_le_iff_le_div:
  fixes k p x :: int
  assumes "0 < p"
  shows "k * p \<le> x \<longleftrightarrow> k \<le> x div p"
proof
  assume "k * p \<le> x"
  then have "(k * p) div p \<le> x div p" using assms by (rule zdiv_mono1)
  then show "k \<le> x div p" using assms by simp
next
  assume "k \<le> x div p"
  then have "k * p \<le> (x div p) * p" using assms by (simp add: mult_right_mono)
  moreover have "0 \<le> x mod p" using assms by simp
  moreover have "(x div p) * p + x mod p = x" by simp
  ultimately show "k * p \<le> x" by linarith
qed

lemma div_diff_self: "p \<noteq> 0 \<Longrightarrow> (x - p) div p = x div p - 1" for p x :: int
  using div_add_self2[of p "x - p"] by simp

section \<open>Evaluation on concrete dates\<close>

text \<open>
  The rules that compute the model on numerals. The two congruence rules make the simplifier
  evaluate a bound value before it enters the body that uses it.
\<close>

lemmas date_eval =
  newDate_def MakeDate_def MakeDay_def DayFromYear_def InLeapYear_def DaysInYear_def
  MonthStart_def msPerDay_def getFullYear_def getMonth_def getDate_def getDay_def Day_def
  YearFromDay_def yearUp.simps yearDown.simps MonthFromDay_def MonthOfYearDay_def
  DateFromDay_def getTime_def Let_def

lemma bind_weak_cong: "x = y \<Longrightarrow> Option.bind x f = Option.bind y f"
  by simp

section \<open>Properties of the loops\<close>

subsection \<open>Without an end date the loops do not return\<close>

lemma weeklyLoop_Some_bounded:
  assumes "weeklyLoop start interval en days mx cur ws acc = Some r"
  shows "en \<noteq> None \<or> mx \<noteq> Infinity"
  using assms
  by (induction rule: weeklyLoop.raw_induct[rotated 1, consumes 1]) (auto split: if_splits)

lemma weeklyLoop_diverges: "weeklyLoop start interval None days Infinity cur ws acc = None"
  using weeklyLoop_Some_bounded[of start interval None days Infinity cur ws acc]
  by (cases "weeklyLoop start interval None days Infinity cur ws acc") auto

lemma mainLoop_Some_bounded:
  assumes "mainLoop start kind interval en mrt cfg mx cur acc = Some r"
  shows "en \<noteq> None \<or> mx \<noteq> Infinity"
  using assms
  by (induction rule: mainLoop.raw_induct[rotated 1, consumes 1])
     (auto split: if_splits simp: Option.bind_eq_Some_conv)

lemma mainLoop_diverges: "mainLoop start kind interval None mrt cfg Infinity cur acc = None"
  using mainLoop_Some_bounded[of start kind interval None mrt cfg Infinity cur acc]
  by (cases "mainLoop start kind interval None mrt cfg Infinity cur acc") auto

subsection \<open>The weekday search of \<^verbatim>\<open>getNthDayOfMonth\<close>\<close>

lemma findDayOfWeek_eq:
  assumes "0 \<le> w" and "w \<le> 6"
  shows "findDayOfWeek t w = Some (addDays t ((w - getDay t) mod 7))"
proof (induction "nat ((w - getDay t) mod 7)" arbitrary: t rule: less_induct)
  case less
  let ?k = "(w - getDay t) mod 7"
  have k: "0 \<le> ?k" "?k < 7" by simp_all
  show ?case
  proof (cases "getDay t = w")
    case True
    then show ?thesis by (subst findDayOfWeek.simps) (simp add: addDays_eq)
  next
    case False
    have "?k \<noteq> 0"
    proof
      assume "?k = 0"
      then obtain q where q: "w - getDay t = 7 * q" by (auto simp: mod_eq_0_iff_dvd)
      have "- 6 \<le> w - getDay t" "w - getDay t \<le> 6"
        using assms getDay_range[of t] by simp_all
      with q have "q = 0" by linarith
      with q have "w - getDay t = 0" by simp
      with False show False by simp
    qed
    have "(w - getDay (addDays t 1)) mod 7 = (w - (getDay t + 1)) mod 7"
      using getDay_add_days[of t 1] by (simp add: addDays_eq mod_simps)
    also have "\<dots> = (?k - 1) mod 7" by (simp add: mod_simps algebra_simps)
    also have "\<dots> = ?k - 1" using k \<open>?k \<noteq> 0\<close> by (intro mod_pos_pos_trivial) simp_all
    finally have next_k: "(w - getDay (addDays t 1)) mod 7 = ?k - 1" .
    then have "nat ((w - getDay (addDays t 1)) mod 7) < nat ?k"
      using k \<open>?k \<noteq> 0\<close> by simp
    from less[OF this]
    have "findDayOfWeek (addDays t 1) w = Some (addDays (addDays t 1) (?k - 1))"
      by (simp only: next_k)
    also have "addDays (addDays t 1) (?k - 1) = addDays t ?k"
      by (simp add: addDays_eq algebra_simps)
    finally show ?thesis using False by (subst findDayOfWeek.simps) simp
  qed
qed

lemma findDayOfWeek_returns:
  assumes "0 \<le> w" and "w \<le> 6"
  shows "\<exists>r. findDayOfWeek t w = Some r"
  using findDayOfWeek_eq[OF assms] by blast

text \<open>For a value that is no weekday the search does not return.\<close>

lemma findDayOfWeek_Some:
  assumes "findDayOfWeek t w = Some r"
  shows "getDay r = w"
  using assms
  by (induction rule: findDayOfWeek.raw_induct[rotated 1, consumes 1]) (auto split: if_splits)

lemma getNthDayOfMonth_not_a_weekday:
  assumes "\<not> (0 \<le> w \<and> w \<le> 6)"
  shows "getNthDayOfMonth t n w = None"
proof -
  let ?first = "newDate (getFullYear t) (getMonth t) 1"
  have "findDayOfWeek ?first w = None"
  proof (cases "findDayOfWeek ?first w")
    case None
    then show ?thesis .
  next
    case (Some r)
    from findDayOfWeek_Some[OF this] getDay_range[of r] assms show ?thesis by simp
  qed
  then show ?thesis by (simp add: getNthDayOfMonth_def Let_def)
qed

lemma getNthDayOfMonth_returns:
  assumes "0 \<le> w" and "w \<le> 6"
  shows "\<exists>r. getNthDayOfMonth t n w = Some r"
proof -
  obtain r where "findDayOfWeek (newDate (getFullYear t) (getMonth t) 1) w = Some r"
    using findDayOfWeek_returns[OF assms] by blast
  then show ?thesis by (simp add: getNthDayOfMonth_def Let_def)
qed

text \<open>
  For the ordinals 1 to 4, and a year that \<^verbatim>\<open>new Date(year, month, 1)\<close> does not move
  into the twentieth century, \<open>getNthDayOfMonth\<close> returns a midnight within the first 28
  days of the anchor's month.
\<close>

lemma getNthDayOfMonth_in_month:
  assumes "0 \<le> w" and "w \<le> 6" and "1 \<le> n" and "n \<le> 4"
    and "\<not> (0 \<le> getFullYear t \<and> getFullYear t \<le> 99)"
  shows "\<exists>j. 0 \<le> j \<and> j \<le> 27
    \<and> getNthDayOfMonth t n w = Some ((FirstOfMonth (monthIndex t) + j) * msPerDay)"
proof -
  let ?k = "monthIndex t"
  let ?first = "newDate (getFullYear t) (getMonth t) 1"
  have "(if 0 \<le> getFullYear t \<and> getFullYear t \<le> 99 then 1900 + getFullYear t
         else getFullYear t) = getFullYear t"
    using assms(5) by auto
  then have first: "?first = FirstOfMonth ?k * msPerDay"
    by (simp add: newDate_def MakeDay_FirstOfMonth MakeDate_def monthIndex_def)
  let ?i = "(w - getDay ?first) mod 7"
  have i: "0 \<le> ?i" "?i \<le> 6"
  proof -
    have "?i < 7" by simp
    then show "0 \<le> ?i" "?i \<le> 6" by simp_all
  qed
  let ?j = "?i + (n - 1) * 7"
  have j: "0 \<le> ?j" "?j \<le> 27" using i assms(3,4) by simp_all
  let ?target = "(FirstOfMonth ?k + ?j) * msPerDay"
  have cur: "findDayOfWeek ?first w = Some (addDays ?first ?i)"
    by (rule findDayOfWeek_eq[OF assms(1,2)])
  have target: "addWeeks (addDays ?first ?i) (n - 1) = ?target"
    by (simp add: first addWeeks_eq addDays_eq algebra_simps)
  have "Day ?target = FirstOfMonth ?k + ?j"
    using Day_add_days[of 0 "FirstOfMonth ?k + ?j"] msPerDay_pos by (simp add: Day_def)
  then have "monthIndex ?target = ?k"
    using j MonthLength_range[of ?k] by (intro civil_in_month) simp_all
  then have "getMonth ?target = getMonth t" using monthIndex_div_mod(2) by metis
  then have "getNthDayOfMonth t n w = Some ?target"
    unfolding getNthDayOfMonth_def Let_def cur by (simp add: target)
  with j show ?thesis by blast
qed

text \<open>
  For the ordinal 5 the result is the fifth such weekday when the month has five, and
  otherwise the one a week before the first, which is a day of the month before.
\<close>

lemma getNthDayOfMonth_fifth:
  assumes "0 \<le> w" and "w \<le> 6"
    and "\<not> (0 \<le> getFullYear t \<and> getFullYear t \<le> 99)"
  defines "k \<equiv> monthIndex t"
  defines "i \<equiv> (w - getDay (FirstOfMonth k * msPerDay)) mod 7"
  shows "getNthDayOfMonth t 5 w =
    Some (if i + 28 < MonthLength k then (FirstOfMonth k + i + 28) * msPerDay
          else (FirstOfMonth k + i - 7) * msPerDay)"
proof -
  let ?first = "newDate (getFullYear t) (getMonth t) 1"
  have "(if 0 \<le> getFullYear t \<and> getFullYear t \<le> 99 then 1900 + getFullYear t
         else getFullYear t) = getFullYear t"
    using assms(3) by auto
  then have first: "?first = FirstOfMonth k * msPerDay"
    by (simp add: newDate_def MakeDay_FirstOfMonth MakeDate_def monthIndex_def k_def)
  have i: "0 \<le> i" "i \<le> 6"
  proof -
    have "i < 7" unfolding i_def by simp
    then show "i \<le> 6" by simp
    show "0 \<le> i" unfolding i_def by simp
  qed
  let ?target = "(FirstOfMonth k + i + 28) * msPerDay"
  have cur: "findDayOfWeek ?first w = Some (addDays ?first i)"
    unfolding first i_def by (rule findDayOfWeek_eq[OF assms(1,2)])
  have target: "addWeeks (addDays ?first i) (5 - 1) = ?target"
    by (simp add: first addWeeks_eq addDays_eq algebra_simps)
  have fallback: "addWeeks (addDays ?first i) (0 - 1) = (FirstOfMonth k + i - 7) * msPerDay"
    by (simp add: first addWeeks_eq addDays_eq algebra_simps)
  have body: "getNthDayOfMonth t 5 w =
      (if getMonth ?target \<noteq> getMonth t then Some ((FirstOfMonth k + i - 7) * msPerDay)
       else Some ?target)"
    unfolding getNthDayOfMonth_def Let_def cur by (simp only: target fallback bind.bind_lunit)
  have dt: "Day ?target = FirstOfMonth k + i + 28" by (rule Day_of_midnight)
  have mt: "getMonth t = k mod 12" by (simp add: k_def monthIndex_div_mod)
  show ?thesis
  proof (cases "i + 28 < MonthLength k")
    case True
    then have "monthIndex ?target = k" using i dt by (intro civil_in_month) simp_all
    then have "getMonth ?target = getMonth t"
      using monthIndex_div_mod(2)[of ?target] mt by simp
    with True show ?thesis by (simp add: body)
  next
    case False
    have "FirstOfMonth (k + 1) \<le> Day ?target"
      using False by (simp add: dt FirstOfMonth_step)
    moreover have "Day ?target < FirstOfMonth (k + 1) + MonthLength (k + 1)"
      using i MonthLength_range[of k] MonthLength_range[of "k + 1"]
      by (simp add: dt FirstOfMonth_step)
    ultimately have "monthIndex ?target = k + 1" by (rule civil_in_month)
    then have "getMonth ?target = (k + 1) mod 12"
      using monthIndex_div_mod(2)[of ?target] by simp
    then have "getMonth ?target \<noteq> getMonth t"
      using mod12_range[of k] by (simp add: mt mod12_step)
    with False show ?thesis by (simp add: body)
  qed
qed

subsection \<open>With an end date the loops return, within the range\<close>

lemma advance_later:
  assumes "kind \<noteq> Weekly" and "1 \<le> interval"
  shows "cur < advance kind cur interval"
proof (cases kind)
  case Daily
  have "0 < interval * msPerDay" using assms(2) msPerDay_pos by simp
  then show ?thesis using Daily by (simp add: addDays_eq)
next
  case Weekly
  with assms show ?thesis by simp
next
  case Monthly
  then show ?thesis using addMonths_later[OF assms(2), of cur] msPerDay_pos by simp
next
  case Yearly
  then show ?thesis using addYears_later[OF assms(2), of cur] msPerDay_pos by simp
qed

lemma mainLoop_returns_within:
  assumes "kind \<noteq> Weekly" and "1 \<le> interval"
    and "kind = Monthly \<and> mrt = NthDay \<longrightarrow>
      (\<forall>c. cfg = Some c \<longrightarrow> 0 \<le> dayOfWeek c \<and> dayOfWeek c \<le> 6)"
    and "start \<le> cur" and "\<forall>d \<in> set acc. start \<le> d \<and> d \<le> e"
  shows "\<exists>ds. mainLoop start kind interval (Some e) mrt cfg mx cur acc = Some ds
    \<and> (\<forall>d \<in> set ds. start \<le> d \<and> d \<le> e)"
  using assms(4,5)
proof (induction "nat (e - cur + 1)" arbitrary: cur acc rule: less_induct)
  case less
  show ?case
  proof (cases "lengthBelow acc mx \<and> cur \<le> e")
    case False
    then show ?thesis using less.prems by (subst mainLoop.simps) auto
  next
    case True
    let ?nth = "kind = Monthly \<and> mrt = NthDay \<and> cfg \<noteq> None"
    have "\<exists>acc'. (if ?nth
        then do {
          nthDate \<leftarrow> getNthDayOfMonth cur (weekNum (the cfg)) (dayOfWeek (the cfg));
          Some (if nthDate \<ge> start \<and> notAfterEnd (Some e) nthDate then acc @ [nthDate] else acc)
        }
        else Some (acc @ [cur])) = Some acc' \<and> (\<forall>d \<in> set acc'. start \<le> d \<and> d \<le> e)"
    proof (cases ?nth)
      case nth: True
      then obtain c where c: "cfg = Some c" by auto
      with nth assms(3) have "0 \<le> dayOfWeek c" "dayOfWeek c \<le> 6" by simp_all
      from getNthDayOfMonth_returns[OF this]
      obtain r where "getNthDayOfMonth cur (weekNum c) (dayOfWeek c) = Some r" by blast
      then show ?thesis using nth c less.prems by auto
    next
      case False
      then show ?thesis using True less.prems by auto
    qed
    then obtain acc' where acc': "(if ?nth
        then do {
          nthDate \<leftarrow> getNthDayOfMonth cur (weekNum (the cfg)) (dayOfWeek (the cfg));
          Some (if nthDate \<ge> start \<and> notAfterEnd (Some e) nthDate then acc @ [nthDate] else acc)
        }
        else Some (acc @ [cur])) = Some acc'"
      and within: "\<forall>d \<in> set acc'. start \<le> d \<and> d \<le> e" by blast
    let ?next = "advance kind cur interval"
    have later: "cur < ?next" by (rule advance_later[OF assms(1,2)])
    then have "nat (e - ?next + 1) < nat (e - cur + 1)" using True by simp
    moreover have "start \<le> ?next" using later less.prems(1) by simp
    ultimately obtain ds where
      "mainLoop start kind interval (Some e) mrt cfg mx ?next acc' = Some ds"
      "\<forall>d \<in> set ds. start \<le> d \<and> d \<le> e"
      using less.hyps within by blast
    then show ?thesis using True acc' by (subst mainLoop.simps) simp
  qed
qed

lemma forSelectedDays_within:
  assumes "\<forall>d \<in> set acc. start \<le> d \<and> d \<le> e"
  shows "\<forall>d \<in> set (forSelectedDays start (Some e) mx ws days acc). start \<le> d \<and> d \<le> e"
  using assms
proof (induction days arbitrary: acc)
  case Nil
  then show ?case by simp
next
  case (Cons day days)
  let ?nextDate = "addDays ws day"
  show ?case
  proof (cases "?nextDate \<ge> start \<and> ?nextDate \<le> e")
    case False
    then have "forSelectedDays start (Some e) mx ws (day # days) acc
        = forSelectedDays start (Some e) mx ws days acc"
      by (auto simp: Let_def)
    then show ?thesis using Cons.IH[OF Cons.prems] by simp
  next
    case True
    let ?acc = "acc @ [?nextDate]"
    have within: "\<forall>d \<in> set ?acc. start \<le> d \<and> d \<le> e" using True Cons.prems by simp
    show ?thesis
    proof (cases "lengthBelow ?acc mx")
      case False
      with True have "forSelectedDays start (Some e) mx ws (day # days) acc = ?acc"
        by (auto simp: Let_def)
      then show ?thesis using within by simp
    next
      case below: True
      with True have "forSelectedDays start (Some e) mx ws (day # days) acc
          = forSelectedDays start (Some e) mx ws days ?acc"
        by (auto simp: Let_def)
      then show ?thesis using Cons.IH[OF within] by simp
    qed
  qed
qed

lemma weeklyLoop_returns_within:
  assumes "1 \<le> interval"
    and "ws \<le> cur" and "\<forall>d \<in> set acc. start \<le> d \<and> d \<le> e"
  shows "\<exists>ds. weeklyLoop start interval (Some e) days mx cur ws acc = Some ds
    \<and> (\<forall>d \<in> set ds. start \<le> d \<and> d \<le> e)"
  using assms(2,3)
proof (induction "nat (e - ws + 1)" arbitrary: cur ws acc rule: less_induct)
  case less
  show ?case
  proof (cases "lengthBelow acc mx \<and> cur \<le> e")
    case False
    then show ?thesis using less.prems by (subst weeklyLoop.simps) auto
  next
    case True
    let ?next = "addWeeks ws interval"
    let ?acc = "forSelectedDays start (Some e) mx ws days acc"
    have "0 < interval * 7 * msPerDay" using assms(1) msPerDay_pos by simp
    then have later: "ws < ?next" by (simp add: addWeeks_eq)
    then have "nat (e - ?next + 1) < nat (e - ws + 1)" using True less.prems(1) by simp
    moreover have "\<forall>d \<in> set ?acc. start \<le> d \<and> d \<le> e"
      by (rule forSelectedDays_within[OF less.prems(2)])
    ultimately obtain ds where
      "weeklyLoop start interval (Some e) days mx ?next ?next ?acc = Some ds"
      "\<forall>d \<in> set ds. start \<le> d \<and> d \<le> e"
      using less.hyps[of ?next ?next ?acc] by auto
    then show ?thesis using True by (subst weeklyLoop.simps) simp
  qed
qed

lemma mainLoop_within:
  assumes "mainLoop start kind interval en mrt cfg mx cur acc = Some ds"
    and "en = Some e" and "kind \<noteq> Weekly" and "1 \<le> interval"
    and "start \<le> cur" and "\<forall>d \<in> set acc. start \<le> d \<and> d \<le> e"
  shows "\<forall>d \<in> set ds. start \<le> d \<and> d \<le> e"
  using assms
proof (induction arbitrary: e rule: mainLoop.raw_induct[rotated 1, consumes 1])
  case (1 mainLoop start kind interval en mrt cfg mx cur acc ds)
  show ?case
  proof (cases "lengthBelow acc mx \<and> notAfterEnd en cur")
    case False
    then show ?thesis using 1 by auto
  next
    case True
    then have cur: "cur \<le> e" using "1.prems" by simp
    from True "1.hyps" obtain acc' where
      acc': "(if kind = Monthly \<and> mrt = NthDay \<and> cfg \<noteq> None
         then do {
           nthDate \<leftarrow> getNthDayOfMonth cur (weekNum (the cfg)) (dayOfWeek (the cfg));
           Some (if nthDate \<ge> start \<and> notAfterEnd en nthDate then acc @ [nthDate] else acc)
         }
         else Some (acc @ [cur])) = Some acc'"
      and rec: "mainLoop start kind interval en mrt cfg mx (advance kind cur interval) acc' = Some ds"
      by (auto simp: Option.bind_eq_Some_conv)
    have "\<forall>d \<in> set acc'. start \<le> d \<and> d \<le> e"
      using acc' "1.prems" cur by (auto simp: Option.bind_eq_Some_conv split: if_splits)
    moreover have "start \<le> advance kind cur interval"
      using advance_later[OF "1.prems"(2,3), of cur] "1.prems"(4) by simp
    ultimately show ?thesis using "1.IH"[OF rec "1.prems"(1,2,3)] by blast
  qed
qed

subsection \<open>The order of the dates\<close>

lemma forSelectedDays_Cons:
  "forSelectedDays start en mx ws (day # days) acc = forSelectedDays start en mx ws days acc
   \<or> forSelectedDays start en mx ws (day # days) acc = acc @ [addDays ws day]
   \<or> forSelectedDays start en mx ws (day # days) acc
       = forSelectedDays start en mx ws days (acc @ [addDays ws day])"
  by (simp add: Let_def)

lemma forSelectedDays_subset:
  "set (forSelectedDays start en mx ws days acc) \<subseteq> set acc \<union> (\<lambda>day. addDays ws day) ` set days"
proof (induction days arbitrary: acc)
  case Nil
  show ?case by simp
next
  case (Cons day days)
  let ?nextDate = "addDays ws day"
  let ?acc = "acc @ [?nextDate]"
  consider "forSelectedDays start en mx ws (day # days) acc = forSelectedDays start en mx ws days acc"
    | "forSelectedDays start en mx ws (day # days) acc = ?acc"
    | "forSelectedDays start en mx ws (day # days) acc = forSelectedDays start en mx ws days ?acc"
    using forSelectedDays_Cons[of start en mx ws day days acc] by blast
  then show ?case
  proof cases
    case 1
    then show ?thesis using Cons.IH[of acc] by auto
  next
    case 2
    then show ?thesis by auto
  next
    case 3
    then show ?thesis using Cons.IH[of ?acc] by auto
  qed
qed

lemma forSelectedDays_distinct:
  assumes "distinct acc" and "distinct days" and "\<forall>day \<in> set days. addDays ws day \<notin> set acc"
  shows "distinct (forSelectedDays start en mx ws days acc)"
  using assms
proof (induction days arbitrary: acc)
  case Nil
  then show ?case by simp
next
  case (Cons day days)
  let ?nextDate = "addDays ws day"
  let ?acc = "acc @ [?nextDate]"
  have d: "distinct ?acc" using Cons.prems by simp
  have "addDays ws day' \<noteq> ?nextDate" if "day' \<in> set days" for day'
    using that Cons.prems(2) msPerDay_pos by (auto simp: addDays_eq)
  then have fresh: "\<forall>day' \<in> set days. addDays ws day' \<notin> set ?acc" using Cons.prems(3) by simp
  consider "forSelectedDays start en mx ws (day # days) acc = forSelectedDays start en mx ws days acc"
    | "forSelectedDays start en mx ws (day # days) acc = ?acc"
    | "forSelectedDays start en mx ws (day # days) acc = forSelectedDays start en mx ws days ?acc"
    using forSelectedDays_Cons[of start en mx ws day days acc] by blast
  then show ?case
  proof cases
    case 1
    then show ?thesis using Cons.IH[of acc] Cons.prems by simp
  next
    case 2
    then show ?thesis using d by simp
  next
    case 3
    then show ?thesis using Cons.IH[OF d _ fresh] Cons.prems(2) by simp
  qed
qed

lemma weeklyLoop_distinct:
  assumes "weeklyLoop start interval en days mx cur ws acc = Some ds"
    and "1 \<le> interval" and "distinct days" and "\<forall>day \<in> set days. 0 \<le> day \<and> day \<le> 6"
    and "distinct acc" and "\<forall>d \<in> set acc. d < ws"
  shows "distinct ds"
  using assms
proof (induction rule: weeklyLoop.raw_induct[rotated 1, consumes 1])
  case (1 weeklyLoop start interval en days mx cur ws acc ds)
  show ?case
  proof (cases "lengthBelow acc mx \<and> notAfterEnd en cur")
    case False
    then show ?thesis using 1 by auto
  next
    case True
    let ?acc = "forSelectedDays start en mx ws days acc"
    let ?next = "addWeeks ws interval"
    from True "1.hyps" have rec: "weeklyLoop start interval en days mx ?next ?next ?acc = Some ds"
      by simp
    have fresh: "\<forall>day \<in> set days. addDays ws day \<notin> set acc"
    proof
      fix day assume "day \<in> set days"
      then have "0 \<le> day * msPerDay" using "1.prems"(3) msPerDay_pos by simp
      then have "ws \<le> addDays ws day" by (simp add: addDays_eq)
      then show "addDays ws day \<notin> set acc" using "1.prems"(5) by auto
    qed
    have d: "distinct ?acc" by (rule forSelectedDays_distinct[OF "1.prems"(4,2) fresh])
    have "\<forall>d \<in> set ?acc. d < ?next"
    proof
      fix d assume "d \<in> set ?acc"
      then consider "d \<in> set acc" | day where "day \<in> set days" "d = addDays ws day"
        using forSelectedDays_subset[of start en mx ws days acc] by auto
      then show "d < ?next"
      proof cases
        case 1
        have "0 \<le> interval * 7 * msPerDay" using \<open>1 \<le> interval\<close> msPerDay_pos by simp
        then have "ws \<le> ?next" by (simp add: addWeeks_eq)
        with 1 "1.prems"(5) show ?thesis by auto
      next
        case 2
        then have "day \<le> 6" using "1.prems"(3) by simp
        then have "day * msPerDay < 7 * msPerDay" using msPerDay_pos by simp
        also have "7 * msPerDay \<le> interval * 7 * msPerDay"
          using \<open>1 \<le> interval\<close> msPerDay_pos by simp
        finally show ?thesis using 2 by (simp add: addDays_eq addWeeks_eq)
      qed
    qed
    from "1.IH"[OF rec "1.prems"(1,2,3) d this] show ?thesis .
  qed
qed

lemma mainLoop_increasing:
  assumes "mainLoop start kind interval en mrt cfg mx cur acc = Some ds"
    and "kind \<noteq> Weekly" and "1 \<le> interval"
    and "\<not> (kind = Monthly \<and> mrt = NthDay \<and> cfg \<noteq> None)"
    and "sorted_wrt (<) acc" and "\<forall>d \<in> set acc. d < cur"
  shows "sorted_wrt (<) ds"
  using assms
proof (induction rule: mainLoop.raw_induct[rotated 1, consumes 1])
  case (1 mainLoop start kind interval en mrt cfg mx cur acc ds)
  show ?case
  proof (cases "lengthBelow acc mx \<and> notAfterEnd en cur")
    case False
    then show ?thesis using 1 by auto
  next
    case True
    let ?next = "advance kind cur interval"
    from True "1.hyps" "1.prems"(3)
    have rec: "mainLoop start kind interval en mrt cfg mx ?next (acc @ [cur]) = Some ds"
      by auto
    have later: "cur < ?next" by (rule advance_later[OF "1.prems"(1,2)])
    have "sorted_wrt (<) (acc @ [cur])" using "1.prems"(4,5) by (simp add: sorted_wrt_append)
    moreover have "\<forall>d \<in> set (acc @ [cur]). d < ?next" using later "1.prems"(5) by auto
    ultimately show ?thesis using "1.IH"[OF rec "1.prems"(1,2,3)] by blast
  qed
qed

lemma mainLoop_nth_increasing:
  assumes "mainLoop start kind interval en mrt cfg mx cur acc = Some ds"
    and "kind = Monthly" and "mrt = NthDay" and "cfg = Some c"
    and "1 \<le> interval" and "0 \<le> dayOfWeek c" and "dayOfWeek c \<le> 6"
    and "1 \<le> weekNum c" and "weekNum c \<le> 4"
    and "1200 \<le> monthIndex cur"
    and "sorted_wrt (<) acc" and "\<forall>d \<in> set acc. Day d < FirstOfMonth (monthIndex cur)"
  shows "sorted_wrt (<) ds"
  using assms
proof (induction rule: mainLoop.raw_induct[rotated 1, consumes 1])
  case (1 mainLoop start kind interval en mrt cfg mx cur acc ds)
  show ?case
  proof (cases "lengthBelow acc mx \<and> notAfterEnd en cur")
    case False
    then show ?thesis using 1 by auto
  next
    case True
    let ?k = "monthIndex cur"
    let ?next = "addMonths cur interval"
    have "100 \<le> getFullYear cur" using "1.prems"(9) monthIndex_div_mod(1)[of cur] by linarith
    then have "\<not> (0 \<le> getFullYear cur \<and> getFullYear cur \<le> 99)" by simp
    from getNthDayOfMonth_in_month[OF "1.prems"(5,6,7,8) this]
    obtain j where j: "0 \<le> j" "j \<le> 27"
      and nth: "getNthDayOfMonth cur (weekNum c) (dayOfWeek c) = Some ((FirstOfMonth ?k + j) * msPerDay)"
      by blast
    let ?r = "(FirstOfMonth ?k + j) * msPerDay"
    let ?acc = "if ?r \<ge> start \<and> notAfterEnd en ?r then acc @ [?r] else acc"
    from True "1.hyps" "1.prems"(1,2,3) nth
    have rec: "mainLoop start kind interval en mrt cfg mx ?next ?acc = Some ds"
      by (auto split: if_splits)
    have dr: "Day ?r = FirstOfMonth ?k + j"
      using Day_add_days[of 0 "FirstOfMonth ?k + j"] msPerDay_pos by (simp add: Day_def)
    have "\<forall>d \<in> set acc. d < ?r"
    proof
      fix d assume "d \<in> set acc"
      then have "Day d < Day ?r" using "1.prems"(11) j(1) unfolding dr by fastforce
      then show "d < ?r" by (rule Day_less)
    qed
    then have sorted: "sorted_wrt (<) ?acc" using "1.prems"(10) by (simp add: sorted_wrt_append)
    have nk: "monthIndex ?next = ?k + interval"
      using "1.prems"(4) by (intro monthIndex_addMonths) simp
    have step: "FirstOfMonth ?k + MonthLength ?k \<le> FirstOfMonth (?k + interval)"
      using "1.prems"(4) by (intro FirstOfMonth_mono) simp
    have "\<forall>d \<in> set ?acc. Day d < FirstOfMonth (monthIndex ?next)"
    proof
      fix d assume "d \<in> set ?acc"
      then consider "d \<in> set acc" | "d = ?r" by (auto split: if_splits)
      then show "Day d < FirstOfMonth (monthIndex ?next)"
      proof cases
        case 1
        then have "Day d < FirstOfMonth ?k" using "1.prems"(11) by blast
        then show ?thesis using step MonthLength_range[of ?k] unfolding nk by linarith
      next
        case 2
        then have "Day d = FirstOfMonth ?k + j" using dr by simp
        then show ?thesis using step MonthLength_range[of ?k] j(2) unfolding nk by linarith
      qed
    qed
    moreover have "1200 \<le> monthIndex ?next" using "1.prems"(4,9) unfolding nk by simp
    ultimately show ?thesis
      using "1.IH"[OF rec "1.prems"(1,2,3,4,5,6,7,8) _ sorted] by blast
  qed
qed

subsection \<open>The daily loop\<close>

lemma dailyDates_set:
  assumes "1 \<le> interval"
  shows "set (dailyDates start interval e) =
    {d. \<exists>k. 0 \<le> k \<and> d = addDays start (k * interval) \<and> d \<le> e}"
proof -
  let ?p = "interval * msPerDay"
  have p: "0 < ?p" using assms msPerDay_pos by simp
  have iff: "start + k * ?p \<le> e \<longleftrightarrow> k < (e - start) div ?p + 1" for k
  proof -
    have "start + k * ?p \<le> e \<longleftrightarrow> k * ?p \<le> e - start" by auto
    also have "\<dots> \<longleftrightarrow> k \<le> (e - start) div ?p" by (rule mult_le_iff_le_div[OF p])
    finally show ?thesis by auto
  qed
  show ?thesis
  proof (intro set_eqI iffI)
    fix d assume "d \<in> set (dailyDates start interval e)"
    then obtain n where n: "n < nat ((e - start) div ?p + 1)" "d = addDays start (int n * interval)"
      by (auto simp: dailyDates_def)
    then have "int n < (e - start) div ?p + 1" by simp
    with iff[of "int n"] have "start + int n * ?p \<le> e" by simp
    then have "d \<le> e" using n(2) by (simp add: addDays_eq algebra_simps)
    with n(2) show "d \<in> {d. \<exists>k. 0 \<le> k \<and> d = addDays start (k * interval) \<and> d \<le> e}"
      by (auto intro!: exI[of _ "int n"])
  next
    fix d assume "d \<in> {d. \<exists>k. 0 \<le> k \<and> d = addDays start (k * interval) \<and> d \<le> e}"
    then obtain k where k: "0 \<le> k" "d = addDays start (k * interval)" "d \<le> e" by auto
    then have "start + k * ?p \<le> e" by (simp add: addDays_eq algebra_simps)
    then have "k < (e - start) div ?p + 1" using iff[of k] by simp
    then have "nat k < nat ((e - start) div ?p + 1)" using k(1) by simp
    moreover have "d = addDays start (int (nat k) * interval)" using k by simp
    ultimately show "d \<in> set (dailyDates start interval e)"
      unfolding dailyDates_def by (auto intro!: image_eqI[of _ _ "nat k"])
  qed
qed

lemma dailyDates_step:
  assumes "1 \<le> interval" and "cur \<le> e"
  shows "dailyDates cur interval e = cur # dailyDates (addDays cur interval) interval e"
proof -
  let ?p = "interval * msPerDay"
  let ?n = "nat ((e - cur) div ?p)"
  have p: "0 < ?p" using assms msPerDay_pos by simp
  have nn: "0 \<le> (e - cur) div ?p" using p assms(2) by (simp add: pos_imp_zdiv_nonneg_iff)
  have "(e - addDays cur interval) div ?p = (e - cur - ?p) div ?p" by (simp add: addDays_eq algebra_simps)
  also have "\<dots> = (e - cur) div ?p - 1"
  proof (rule div_diff_self)
    show "?p \<noteq> 0" using p by linarith
  qed
  finally have c2: "nat ((e - addDays cur interval) div ?p + 1) = ?n" by simp
  have c1: "nat ((e - cur) div ?p + 1) = Suc ?n" using nn by (simp add: nat_add_distrib)
  have "dailyDates cur interval e = map (\<lambda>k. addDays cur (int k * interval)) [0 ..< Suc ?n]"
    by (simp only: dailyDates_def c1)
  also have "\<dots> = addDays cur (int 0 * interval)
      # map (\<lambda>k. addDays cur (int (Suc k) * interval)) [0 ..< ?n]"
    by (simp only: map_upt_Suc)
  also have "\<dots> = cur # map (\<lambda>k. addDays (addDays cur interval) (int k * interval)) [0 ..< ?n]"
    by (simp add: addDays_eq algebra_simps)
  finally show ?thesis by (simp only: dailyDates_def c2)
qed

lemma dailyDates_past: "1 \<le> interval \<Longrightarrow> e < cur \<Longrightarrow> dailyDates cur interval e = []"
proof -
  assume a: "1 \<le> interval" "e < cur"
  let ?p = "interval * msPerDay"
  have p: "0 < ?p" using a msPerDay_pos by simp
  have "(e - cur) div ?p < 0" using p a(2) by (simp add: pos_imp_zdiv_neg_iff)
  then show ?thesis by (simp add: dailyDates_def)
qed

lemma mainLoop_daily:
  assumes "1 \<le> interval"
  shows "mainLoop start Daily interval (Some e) mrt cfg (Finite m) cur acc =
    Some (acc @ take (nat (m - int (length acc))) (dailyDates cur interval e))"
proof (induction "nat (e - cur + 1)" arbitrary: cur acc rule: less_induct)
  case less
  show ?case
  proof (cases "int (length acc) < m \<and> cur \<le> e")
    case False
    then have "take (nat (m - int (length acc))) (dailyDates cur interval e) = []"
      using dailyDates_past[OF assms, of e cur] by auto
    with False show ?thesis by (subst mainLoop.simps) auto
  next
    case True
    let ?next = "addDays cur interval"
    have "cur < ?next" using advance_later[of Daily interval cur] assms by simp
    then have "nat (e - ?next + 1) < nat (e - cur + 1)" using True by simp
    from less[OF this, of "acc @ [cur]"]
    have "mainLoop start Daily interval (Some e) mrt cfg (Finite m) ?next (acc @ [cur]) =
      Some ((acc @ [cur]) @ take (nat (m - int (length (acc @ [cur])))) (dailyDates ?next interval e))" .
    moreover have "nat (m - int (length acc)) = Suc (nat (m - int (length (acc @ [cur]))))"
      using True by (simp add: Suc_nat_eq_nat_zadd1 algebra_simps)
    ultimately show ?thesis using True dailyDates_step[OF assms, of cur e]
      by (subst mainLoop.simps) simp
  qed
qed

section \<open>Properties of the store\<close>

lemma validateState_snd: "snd (validateState s) = s\<lparr>errors := fst (validateState s)\<rparr>"
  by (simp add: validateState_def Let_def)

lemma updatePreviewDates_store:
  "store (updatePreviewDates s) = s\<lparr>errors := fst (validateState s)\<rparr>
   \<or> (\<exists>ds. store (updatePreviewDates s) = s\<lparr>errors := fst (validateState s), previewDates := ds\<rparr>)"
proof -
  obtain errs s' where v: "validateState s = (errs, s')" by (cases "validateState s")
  then have s': "s' = s\<lparr>errors := errs\<rparr>" using validateState_snd[of s] by simp
  show ?thesis unfolding updatePreviewDates_def v s' by (auto split: option.splits)
qed

lemma validateState_no_errors:
  assumes "fst (validateState s) = []"
  shows "1 \<le> recurrenceInterval s"
    and "recurrenceType s = Some Weekly \<Longrightarrow> selectedDays s \<noteq> []"
    and "endDate s = Some e \<Longrightarrow> selectedDate s \<le> e"
  using assms
  by (auto simp: validateState_def Let_def validateDateRange_def isBefore_def getTime_def
      split: if_splits)

lemma previewOf_weekly:
  assumes "recurrenceType s = Some Weekly" and "selectedDays s \<noteq> []"
    and "1 \<le> recurrenceInterval s" and "endDate s = Some e"
  shows "\<exists>ds. previewOf s = Some ds \<and> (\<forall>d \<in> set ds. selectedDate s \<le> d \<and> d \<le> e)"
proof -
  let ?start = "selectedDate s"
  let ?mx = "Finite (ceilDiv (getTime e - getTime ?start) (1000 * 3600 * 24))"
  obtain ds where
    "weeklyLoop ?start (recurrenceInterval s) (Some e) (selectedDays s) ?mx ?start
       (startOfWeek ?start) [] = Some ds"
    "\<forall>d \<in> set ds. ?start \<le> d \<and> d \<le> e"
    using weeklyLoop_returns_within[OF assms(3) startOfWeek_le[of ?start], of "[]" ?start e
        "selectedDays s" ?mx]
    by auto
  then show ?thesis using assms
    by (simp add: calculatePreviewDates_def validateDate_def isValid_def isNaN_def)
qed

lemma previewOf_other:
  assumes "recurrenceType s = Some kind" and "kind \<noteq> Weekly"
    and "1 \<le> recurrenceInterval s" and "endDate s = Some e"
  shows "previewOf s =
    mainLoop (selectedDate s) kind (recurrenceInterval s) (Some e) (monthlyRecurrenceType s)
      (nthDayConfig s) (Finite (ceilDiv (getTime e - getTime (selectedDate s)) (1000 * 3600 * 24)))
      (selectedDate s) []"
  using assms by (simp add: calculatePreviewDates_def validateDate_def isValid_def isNaN_def)


lemma sort_key_getTime: "sort_key getTime ds = sort ds"
proof -
  have "getTime = (\<lambda>t. t)" by (rule ext) (simp add: getTime_def)
  then show ?thesis by simp
qed

section \<open>The claims\<close>

lemmas state_eval =
  validateState_def validateDate_def validateDateRange_def isValid_def isNaN_def isBefore_def
  initialState_def calculatePreviewDates_def ceilDiv_def Let_def

subsection \<open>C1: generation without an end date\<close>

text \<open>
  Claim C1: for every rule configuration with a recurrence kind and no end date,
  \<open>calculatePreviewDates\<close> terminates and returns a sequence whose length is capped by a
  fixed ceiling.

  The code gives \<^verbatim>\<open>maxPreviewDates\<close> the value \<^verbatim>\<open>Infinity\<close> when \<^verbatim>\<open>endDate\<close> is
  absent, so both tests of each \<^verbatim>\<open>while\<close> loop hold at every iteration: whatever the start
  date, the kind, the interval, the weekdays and the monthly mode, the function does not
  return.
\<close>

theorem calculatePreviewDates_without_endDate:
  "calculatePreviewDates start (Some kind) interval None days mrt cfg = None"
  by (simp add: calculatePreviewDates_def validateDate_def isValid_def isNaN_def
      weeklyLoop_diverges mainLoop_diverges)

subsection \<open>C2: the last weekday of a month\<close>

text \<open>
  Claim C2: for every month anchor and every weekday \<open>w\<close> from 0 to 6,
  \<open>getNthDayOfMonth\<close> with week ordinal 5 returns the last occurrence of \<open>w\<close> within the
  anchor month.

  April 2024 has four Fridays, the last on the 26th (the Friday after it is in May). For the
  anchor 2024-04-01 the first Friday plus four weeks is in May, and the fallback
  \<^verbatim>\<open>addWeeks(currentDay, weekCount - 1)\<close> is taken with \<open>weekCount\<close> still 0: the result
  is the first Friday minus one week, 2024-03-29, a date of March.
\<close>

theorem getNthDayOfMonth_April_2024:
  "getNthDayOfMonth (newDate 2024 3 1) 5 5 = Some (newDate 2024 2 29)
   \<and> getMonth (newDate 2024 3 1) = 3 \<and> getMonth (newDate 2024 2 29) = 2
   \<and> getDay (newDate 2024 3 26) = 5 \<and> getMonth (newDate 2024 3 26) = 3
   \<and> getMonth (addDays (newDate 2024 3 26) 7) = 4"
  by (simp add: getNthDayOfMonth_def findDayOfWeek.simps addWeeks_eq addDays_eq date_eval
      cong: bind_weak_cong let_weak_cong)

text \<open>
  The same holds of every month with four such weekdays: \<open>getNthDayOfMonth_fifth\<close> gives
  the result for every anchor and weekday.
\<close>

subsection \<open>C3: order and duplicates\<close>

text \<open>
  Claim C3: for every valid configuration the sequence \<open>calculatePreviewDates\<close> returns is
  non-decreasing and has no duplicate.

  The configuration "last Friday of every month, from 2024-03-01 to 2024-05-31" passes
  \<open>validateState\<close>. For the cursor in April, \<open>getNthDayOfMonth\<close> returns 2024-03-29 (see
  C2), the date already emitted for March: the sequence holds it twice.
\<close>

theorem calculatePreviewDates_last_Friday:
  "fst (validateState lastFridayState) = []
   \<and> previewOf lastFridayState =
       Some [newDate 2024 2 29, newDate 2024 2 29, newDate 2024 4 31]"
  by (simp add: lastFridayState_def state_eval mainLoop.simps getNthDayOfMonth_def
      findDayOfWeek.simps addDays_eq addWeeks_eq addMonths_def setMonth_def setFullYear_def
      TimeWithinDay_def date_eval cong: bind_weak_cong let_weak_cong)

text \<open>
  Where the claim does hold: with an end date, weekdays that are distinct and from 0 to 6,
  and an nth-weekday pattern (when one is in use) with an ordinal from 1 to 4, a weekday
  from 0 to 6 and a start year from 100 on, the function returns a strictly increasing
  sequence.
\<close>

lemma previewOf_increasing:
  assumes "fst (validateState s) = []" and "endDate s = Some e"
    and "recurrenceType s = Some Weekly \<longrightarrow>
      distinct (selectedDays s) \<and> (\<forall>day \<in> set (selectedDays s). 0 \<le> day \<and> day \<le> 6)"
    and "\<forall>c. recurrenceType s = Some Monthly \<and> monthlyRecurrenceType s = NthDay
        \<and> nthDayConfig s = Some c \<longrightarrow>
      1 \<le> weekNum c \<and> weekNum c \<le> 4 \<and> 0 \<le> dayOfWeek c \<and> dayOfWeek c \<le> 6
      \<and> 100 \<le> getFullYear (selectedDate s)"
  shows "\<exists>ds. previewOf s = Some ds \<and> sorted_wrt (<) ds"
proof -
  let ?start = "selectedDate s"
  let ?mx = "Finite (ceilDiv (getTime e - getTime ?start) (1000 * 3600 * 24))"
  note v = validateState_no_errors[OF assms(1)]
  show ?thesis
  proof (cases "recurrenceType s")
    case None
    then show ?thesis by (simp add: calculatePreviewDates_def)
  next
    case (Some kind)
    show ?thesis
    proof (cases "kind = Weekly")
      case True
      with Some have w: "recurrenceType s = Some Weekly" by simp
      then have days: "selectedDays s \<noteq> []" using v(2) by simp
      obtain ds where ds:
        "weeklyLoop ?start (recurrenceInterval s) (Some e) (selectedDays s) ?mx ?start
           (startOfWeek ?start) [] = Some ds"
        using weeklyLoop_returns_within[OF v(1) startOfWeek_le[of ?start], of "[]" ?start e
            "selectedDays s" ?mx]
        by auto
      have "distinct ds"
        using weeklyLoop_distinct[OF ds v(1)] assms(3) w by simp
      then have "sorted_wrt (<) (sort ds)" by (simp add: strict_sorted_iff)
      then show ?thesis using w days ds assms(2)
        by (simp add: calculatePreviewDates_def validateDate_def isValid_def isNaN_def
            sort_key_getTime)
    next
      case False
      note eq = previewOf_other[OF Some False v(1) assms(2)]
      show ?thesis
      proof (cases "kind = Monthly \<and> monthlyRecurrenceType s = NthDay \<and> nthDayConfig s \<noteq> None")
        case nth: True
        then obtain c where c: "nthDayConfig s = Some c" by auto
        with nth Some assms(4) have r: "1 \<le> weekNum c" "weekNum c \<le> 4" "0 \<le> dayOfWeek c"
          "dayOfWeek c \<le> 6" "100 \<le> getFullYear ?start" by auto
        have "kind = Monthly \<and> monthlyRecurrenceType s = NthDay \<longrightarrow>
            (\<forall>c'. nthDayConfig s = Some c' \<longrightarrow> 0 \<le> dayOfWeek c' \<and> dayOfWeek c' \<le> 6)"
          using c r by simp
        from mainLoop_returns_within[OF False v(1) this, of ?start ?start "[]" e ?mx]
        obtain ds where ds: "mainLoop ?start kind (recurrenceInterval s) (Some e)
            (monthlyRecurrenceType s) (nthDayConfig s) ?mx ?start [] = Some ds" by auto
        have "1200 \<le> monthIndex ?start"
          using r(5) getMonth_range[of ?start] by (simp add: monthIndex_def)
        from mainLoop_nth_increasing[OF ds _ _ c v(1) r(3,4,1,2) this] nth
        have "sorted_wrt (<) ds" by simp
        with ds show ?thesis unfolding eq by simp
      next
        case other: False
        have "kind = Monthly \<and> monthlyRecurrenceType s = NthDay \<longrightarrow>
            (\<forall>c. nthDayConfig s = Some c \<longrightarrow> 0 \<le> dayOfWeek c \<and> dayOfWeek c \<le> 6)"
          using other by auto
        from mainLoop_returns_within[OF False v(1) this, of ?start ?start "[]" e ?mx]
        obtain ds where ds: "mainLoop ?start kind (recurrenceInterval s) (Some e)
            (monthlyRecurrenceType s) (nthDayConfig s) ?mx ?start [] = Some ds" by auto
        from mainLoop_increasing[OF ds False v(1) other] have "sorted_wrt (<) ds" by simp
        with ds show ?thesis unfolding eq by simp
      qed
    qed
  qed
qed

subsection \<open>C4: daily recurrence up to the end date\<close>

text \<open>
  Claim C4: a valid daily configuration with an end date yields exactly the dates
  \<open>startDate + k * interval\<close> days that are not after the end date, the last one included.

  From 2024-01-01 to 2024-01-03 with interval 1 the dates are the 1st, 2nd and 3rd of
  January. \<^verbatim>\<open>maxPreviewDates\<close> is the number of days between the two dates, 2, so the loop
  stops after two dates and the end date itself is not emitted.
\<close>

theorem calculatePreviewDates_three_days:
  "fst (validateState threeDaysState) = []
   \<and> previewOf threeDaysState = Some [newDate 2024 0 1, newDate 2024 0 2]
   \<and> addDays (newDate 2024 0 1) (2 * 1) = newDate 2024 0 3"
  by (simp add: threeDaysState_def state_eval mainLoop.simps addDays_eq date_eval
      cong: bind_weak_cong let_weak_cong)

text \<open>
  In general the daily sequence is the claim's list cut to its first
  \<^verbatim>\<open>Math.ceil((endDate - startDate) / 1 day)\<close> dates.
\<close>

lemma calculatePreviewDates_daily:
  assumes "1 \<le> interval"
  shows "calculatePreviewDates start (Some Daily) interval (Some e) days mrt cfg =
    Some (take (nat (ceilDiv (e - start) msPerDay)) (dailyDates start interval e))"
  using mainLoop_daily[OF assms, of start e mrt cfg "ceilDiv (e - start) msPerDay" start "[]"]
  by (simp add: calculatePreviewDates_def validateDate_def isValid_def isNaN_def getTime_def msPerDay_def)

subsection \<open>C5: every date lies between the start date and the end date\<close>

text \<open>
  Claim C5: for every valid configuration with an end date, every date of the sequence
  \<open>calculatePreviewDates\<close> returns lies between the start date and the end date.

  Valid means that \<open>validateState\<close> reports no error. The bound holds of whatever the
  function returns. It does return, unless the rule is an nth-weekday pattern whose weekday
  is outside 0 to 6, the range \<^verbatim>\<open>NthDayConfig\<close> documents (for such a value the search for
  the first such weekday of the month never ends).
\<close>

theorem calculatePreviewDates_within_endDate:
  assumes "fst (validateState s) = []" and "endDate s = Some e"
  shows "(\<forall>ds. previewOf s = Some ds \<longrightarrow> (\<forall>d \<in> set ds. selectedDate s \<le> d \<and> d \<le> e))
    \<and> ((recurrenceType s = Some Monthly \<and> monthlyRecurrenceType s = NthDay \<longrightarrow>
          (\<forall>c. nthDayConfig s = Some c \<longrightarrow> 0 \<le> dayOfWeek c \<and> dayOfWeek c \<le> 6))
        \<longrightarrow> (\<exists>ds. previewOf s = Some ds))"
proof -
  note v = validateState_no_errors[OF assms(1)]
  have se: "selectedDate s \<le> e" by (rule v(3)[OF assms(2)])
  show ?thesis
  proof (cases "recurrenceType s")
    case None
    then show ?thesis using se by (simp add: calculatePreviewDates_def)
  next
    case (Some kind)
    show ?thesis
    proof (cases "kind = Weekly")
      case True
      with Some have "selectedDays s \<noteq> []" using v(2) by simp
      from previewOf_weekly[OF _ this v(1) assms(2)] Some True show ?thesis by auto
    next
      case False
      note eq = previewOf_other[OF Some False v(1) assms(2)]
      have "\<forall>ds. previewOf s = Some ds \<longrightarrow> (\<forall>d \<in> set ds. selectedDate s \<le> d \<and> d \<le> e)"
        unfolding eq using mainLoop_within[OF _ refl False v(1), of "selectedDate s" _ _ _ _ "selectedDate s" "[]"]
        by auto
      moreover have "\<exists>ds. previewOf s = Some ds"
        if "recurrenceType s = Some Monthly \<and> monthlyRecurrenceType s = NthDay \<longrightarrow>
          (\<forall>c. nthDayConfig s = Some c \<longrightarrow> 0 \<le> dayOfWeek c \<and> dayOfWeek c \<le> 6)"
        unfolding eq
        using mainLoop_returns_within[OF False v(1), of "monthlyRecurrenceType s" "nthDayConfig s"
            "selectedDate s" "selectedDate s" "[]" e
            "Finite (ceilDiv (getTime e - getTime (selectedDate s)) (1000 * 3600 * 24))"] that Some
        by auto
      ultimately show ?thesis by blast
    qed
  qed
qed

theorem calculatePreviewDates_within_endDate_witness:
  "fst (validateState lastFridayState) = []
   \<and> endDate lastFridayState = Some (newDate 2024 4 31)
   \<and> (\<exists>ds. previewOf lastFridayState = Some ds
        \<and> (\<forall>d \<in> set ds. newDate 2024 2 1 \<le> d \<and> d \<le> newDate 2024 4 31))"
proof -
  have v: "fst (validateState lastFridayState) = []"
    by (simp add: lastFridayState_def state_eval date_eval)
  have e: "endDate lastFridayState = Some (newDate 2024 4 31)"
    by (simp add: lastFridayState_def initialState_def)
  have c: "recurrenceType lastFridayState = Some Monthly
      \<and> monthlyRecurrenceType lastFridayState = NthDay \<longrightarrow>
    (\<forall>c. nthDayConfig lastFridayState = Some c \<longrightarrow> 0 \<le> dayOfWeek c \<and> dayOfWeek c \<le> 6)"
    by (simp add: lastFridayState_def initialState_def)
  have s: "selectedDate lastFridayState = newDate 2024 2 1"
    by (simp add: lastFridayState_def initialState_def)
  from calculatePreviewDates_within_endDate[OF v e] c v e show ?thesis
    unfolding s by blast
qed

subsection \<open>C6: the weekly example\<close>

text \<open>
  Claim C6: from 2024-01-01 to 2024-01-15, weekly with interval 1 on Mondays and Wednesdays,
  the sequence is 2024-01-01, 2024-01-03, 2024-01-08, 2024-01-10, 2024-01-15.
\<close>

theorem calculatePreviewDates_weekly_example:
  "calculatePreviewDates (newDate 2024 0 1) (Some Weekly) 1 (Some (newDate 2024 0 15)) [1, 3]
     DayOfMonth None =
   Some [newDate 2024 0 1, newDate 2024 0 3, newDate 2024 0 8, newDate 2024 0 10,
         newDate 2024 0 15]"
  by (simp add: state_eval weeklyLoop.simps addDays_eq addWeeks_eq startOfWeek_eq date_eval
      cong: bind_weak_cong let_weak_cong)

subsection \<open>C7: the error for a missing weekday selection\<close>

text \<open>
  Claim C7: \<open>validateState\<close> reports an error with field \<open>selectedDays\<close> if and only if the
  recurrence kind is weekly and no weekday is selected.
\<close>

theorem validateState_selectedDays_iff:
  "(\<exists>e \<in> set (fst (validateState s)). field e = ''selectedDays'')
   \<longleftrightarrow> (recurrenceType s = Some Weekly \<and> selectedDays s = [])"
  by (auto simp: validateState_def Let_def)

subsection \<open>C8: an invalid state keeps its preview\<close>

text \<open>
  Claim C8: in every state in which \<open>validateState\<close> reports an error,
  \<open>updatePreviewDates\<close> leaves \<open>previewDates\<close> as it was. It returns, and the only field
  it writes is \<open>errors\<close>.
\<close>

theorem updatePreviewDates_invalid:
  assumes "fst (validateState s) \<noteq> []"
  shows "updatePreviewDates s = Returned (s\<lparr>errors := fst (validateState s)\<rparr>)
    \<and> previewDates (store (updatePreviewDates s)) = previewDates s"
  using assms validateState_snd[of s]
  by (cases "validateState s") (simp add: updatePreviewDates_def)

theorem updatePreviewDates_invalid_witness:
  "fst (validateState ((initialState (newDate 2024 0 1))\<lparr>recurrenceInterval := 0\<rparr>)) \<noteq> []
   \<and> previewDates (store (updatePreviewDates
         ((initialState (newDate 2024 0 1))\<lparr>recurrenceInterval := 0\<rparr>))) = [newDate 2024 0 1]"
proof -
  let ?s = "(initialState (newDate 2024 0 1))\<lparr>recurrenceInterval := 0\<rparr>"
  have h: "fst (validateState ?s) \<noteq> []" by (simp add: state_eval)
  have "previewDates ?s = [newDate 2024 0 1]" by (simp add: initialState_def)
  with updatePreviewDates_invalid[OF h] h show ?thesis by simp
qed

subsection \<open>C9: an interval below 1\<close>

text \<open>
  Claim C9: \<open>setRecurrenceInterval v\<close> with \<open>v < 1\<close> records exactly one error, with field
  \<open>interval\<close>, and leaves \<open>recurrenceInterval\<close> and \<open>previewDates\<close> unchanged. It writes
  no other field and returns.
\<close>

theorem setRecurrenceInterval_invalid:
  assumes "v < 1"
  shows "setRecurrenceInterval v s =
      Returned (s\<lparr>errors := [\<lparr>field = ''interval'', message = ''Interval must be at least 1''\<rparr>]\<rparr>)
    \<and> map field (errors (store (setRecurrenceInterval v s))) = [''interval'']
    \<and> recurrenceInterval (store (setRecurrenceInterval v s)) = recurrenceInterval s
    \<and> previewDates (store (setRecurrenceInterval v s)) = previewDates s"
  using assms by (simp add: setRecurrenceInterval_def)

theorem setRecurrenceInterval_invalid_witness:
  "(0 :: int) < 1
   \<and> map field (errors (store (setRecurrenceInterval 0 (initialState (newDate 2024 0 1)))))
       = [''interval'']
   \<and> recurrenceInterval (store (setRecurrenceInterval 0 (initialState (newDate 2024 0 1)))) = 1
   \<and> previewDates (store (setRecurrenceInterval 0 (initialState (newDate 2024 0 1))))
       = [newDate 2024 0 1]"
proof -
  have h: "(0 :: int) < 1" by simp
  from setRecurrenceInterval_invalid[OF h, of "initialState (newDate 2024 0 1)"] h
  show ?thesis by (simp add: initialState_def)
qed

subsection \<open>C10: choosing weekly recurrence selects the weekday of the start date\<close>

text \<open>
  Claim C10: \<open>setRecurrenceType\<close> called with weekly on a state with no selected weekday
  sets \<open>selectedDays\<close> to the weekday (0 to 6) of the start date alone, so that a weekly
  state has a weekday selected.

  The theorem is about the content of the store once the action has made its \<^verbatim>\<open>set\<close>
  calls, whether the closing \<open>updatePreviewDates\<close> returns or not.
\<close>

theorem setRecurrenceType_weekly:
  assumes "selectedDays s = []"
  shows "selectedDays (store (setRecurrenceType (Some Weekly) s)) = [getDay (selectedDate s)]
    \<and> recurrenceType (store (setRecurrenceType (Some Weekly) s)) = Some Weekly
    \<and> 0 \<le> getDay (selectedDate s) \<and> getDay (selectedDate s) \<le> 6"
proof -
  let ?s2 = "s\<lparr>recurrenceType := Some Weekly, errors := [], selectedDays := [getDay (selectedDate s)]\<rparr>"
  have e: "setRecurrenceType (Some Weekly) s = updatePreviewDates ?s2"
    using assms by (simp add: setRecurrenceType_def)
  from updatePreviewDates_store[of ?s2]
  have "selectedDays (store (updatePreviewDates ?s2)) = [getDay (selectedDate s)]
      \<and> recurrenceType (store (updatePreviewDates ?s2)) = Some Weekly"
    by auto
  then show ?thesis using getDay_range[of "selectedDate s"] by (simp add: e)
qed

theorem setRecurrenceType_weekly_witness:
  "selectedDays (initialState (newDate 2024 0 1)) = []
   \<and> selectedDays (store (setRecurrenceType (Some Weekly) (initialState (newDate 2024 0 1)))) = [1]
   \<and> recurrenceType (store (setRecurrenceType (Some Weekly) (initialState (newDate 2024 0 1))))
       = Some Weekly"
proof -
  have h: "selectedDays (initialState (newDate 2024 0 1)) = []" by (simp add: initialState_def)
  have d: "getDay (selectedDate (initialState (newDate 2024 0 1))) = 1"
    by (simp add: initialState_def date_eval)
  from setRecurrenceType_weekly[OF h] h show ?thesis unfolding d by simp
qed

text \<open>
  Whether that call returns: it does when the state has an end date, and it does not when
  the state has none and is valid otherwise, as is the initial state of the store (C1).
\<close>

lemma choosing_weekly_returns:
  assumes "selectedDays s = []" and "endDate s = Some e"
  shows "\<exists>s'. setRecurrenceType (Some Weekly) s = Returned s'"
proof -
  let ?s2 = "s\<lparr>recurrenceType := Some Weekly, errors := [], selectedDays := [getDay (selectedDate s)]\<rparr>"
  have e: "setRecurrenceType (Some Weekly) s = updatePreviewDates ?s2"
    using assms by (simp add: setRecurrenceType_def)
  obtain errs s' where v: "validateState ?s2 = (errs, s')" by (cases "validateState ?s2")
  show ?thesis
  proof (cases "errs = []")
    case False
    then show ?thesis unfolding e updatePreviewDates_def v by simp
  next
    case True
    with v have "fst (validateState ?s2) = []" by simp
    from validateState_no_errors(1)[OF this] have "1 \<le> recurrenceInterval ?s2" .
    from previewOf_weekly[OF _ _ this, of e] assms(2)
    obtain ds where "previewOf ?s2 = Some ds" by auto
    then show ?thesis unfolding e updatePreviewDates_def v using True by simp
  qed
qed

lemma choosing_weekly_hangs:
  assumes "selectedDays s = []" and "endDate s = None" and "1 \<le> recurrenceInterval s"
  shows "setRecurrenceType (Some Weekly) s =
    Hung (s\<lparr>recurrenceType := Some Weekly, errors := [], selectedDays := [getDay (selectedDate s)]\<rparr>)"
proof -
  let ?s2 = "s\<lparr>recurrenceType := Some Weekly, errors := [], selectedDays := [getDay (selectedDate s)]\<rparr>"
  have e: "setRecurrenceType (Some Weekly) s = updatePreviewDates ?s2"
    using assms by (simp add: setRecurrenceType_def)
  have v: "validateState ?s2 = ([], ?s2)"
    using assms by (simp add: validateState_def validateDate_def isValid_def isNaN_def)
  have "previewOf ?s2 = None"
    using assms(2) by (simp add: calculatePreviewDates_def validateDate_def isValid_def isNaN_def
        weeklyLoop_diverges)
  then show ?thesis unfolding e updatePreviewDates_def v by simp
qed

lemma choosing_weekly_initially:
  "setRecurrenceType (Some Weekly) (initialState now) =
    Hung ((initialState now)\<lparr>recurrenceType := Some Weekly, selectedDays := [getDay now]\<rparr>)"
  using choosing_weekly_hangs[of "initialState now"] by (simp add: initialState_def)

end
